theory Spec2Isabelle
  imports Main "HOL-Library.Word" "HOL-Library.Char_ord" "HOL-Library.List_Lexorder" "HOL-Library.Multiset"
begin

unbundle bit_operations_syntax

section \<open>Data model of the CPU tree allocator\<close>

text \<open>
  A CPU set (package cpuset) is a finite set of Go ints. \<open>Size\<close> is \<open>card\<close>,
  \<open>List\<close> is the ascending listing, \<open>UnsortedList\<close> lists the members in an
  order the Go runtime chooses (map iteration); that order is a parameter \<open>ul\<close>
  of every function that uses it.
\<close>

type_synonym cpuset = "int set"

definition List :: "cpuset \<Rightarrow> int list" where
  "List s = sorted_list_of_set s"

text \<open>
  Modelled from the spec: the type CPUTopologyLevel is declared outside the files at hand;
  the spec gives the closed enumeration, coarsest to finest. A node made by NewCpuTree has
  the zero value of the type until a level is assigned.
\<close>

datatype CPUTopologyLevel =
  CPUTopologyLevelUndefined
  | CPUTopologyLevelSystem
  | CPUTopologyLevelPackage
  | CPUTopologyLevelDie
  | CPUTopologyLevelNuma
  | CPUTopologyLevelL2Cache
  | CPUTopologyLevelCore
  | CPUTopologyLevelThread

text \<open>
  cpuTreeNode. The parent pointer is not a field of the model: a node is reached from its
  parent, and the functions that read the pointer (Depth, SiblingIndex, the pruning walk
  of SplitLevel) receive what they read from it as an argument.
\<close>

datatype cpuTreeNode =
  Node (name: string) (level: CPUTopologyLevel) (cpus: cpuset) (children: "cpuTreeNode list")

record cpuTreeNodeAttributes =
  t :: cpuTreeNode
  depth :: nat
  currentCpus :: cpuset
  freeCpus :: cpuset
  currentCpuCount :: int
  currentCpuCounts :: "int list"
  freeCpuCount :: int
  freeCpuCounts :: "int list"

section \<open>Comparators\<close>

text \<open>
  The two loops of a sorter walk the count vector of the left record and read the right
  record at the same index: \<open>OutOfRange\<close> is the index panic of Go when the right
  vector is shorter.
\<close>

datatype scan = Differ int int | Same | OutOfRange

fun scanCounts :: "int list \<Rightarrow> int list \<Rightarrow> scan" where
  "scanCounts [] ys = Same"
| "scanCounts (x # xs) [] = OutOfRange"
| "scanCounts (x # xs) (y # ys) = (if x \<noteq> y then Differ x y else scanCounts xs ys)"

text \<open>sorterAllocate(tnas)(i, j) on the records at i and j; None is the panic.\<close>

definition sorterAllocate :: "bool \<Rightarrow> cpuTreeNodeAttributes \<Rightarrow> cpuTreeNodeAttributes \<Rightarrow> bool option" where
  "sorterAllocate topologyBalancing a b =
     (if depth a \<noteq> depth b then Some (depth a > depth b)
      else case scanCounts (currentCpuCounts a) (currentCpuCounts b) of
             OutOfRange \<Rightarrow> None
           | Differ x y \<Rightarrow> Some (x > y)
           | Same \<Rightarrow>
               (case scanCounts (freeCpuCounts a) (freeCpuCounts b) of
                  OutOfRange \<Rightarrow> None
                | Differ x y \<Rightarrow> (if topologyBalancing then Some (x > y) else Some (x < y))
                | Same \<Rightarrow> Some (name (t a) < name (t b))))"

definition sorterRelease :: "bool \<Rightarrow> cpuTreeNodeAttributes \<Rightarrow> cpuTreeNodeAttributes \<Rightarrow> bool option" where
  "sorterRelease topologyBalancing a b =
     (if depth a \<noteq> depth b then Some (depth a > depth b)
      else case scanCounts (currentCpuCounts a) (currentCpuCounts b) of
             OutOfRange \<Rightarrow> None
           | Differ x y \<Rightarrow> Some (x < y)
           | Same \<Rightarrow>
               (case scanCounts (freeCpuCounts a) (freeCpuCounts b) of
                  OutOfRange \<Rightarrow> None
                | Differ x y \<Rightarrow> (if topologyBalancing then Some (x < y) else Some (x < y))
                | Same \<Rightarrow> Some (name (t a) > name (t b))))"

subsection \<open>The orderings as the specification words them\<close>

text \<open>
  A record made for a node at depth d carries d + 1 counts in each vector (the counts of
  the ancestors from the root down to the node).
\<close>

definition attributed :: "cpuTreeNodeAttributes \<Rightarrow> bool" where
  "attributed a \<longleftrightarrow>
     length (currentCpuCounts a) = Suc (depth a) \<and> length (freeCpuCounts a) = Suc (depth a)"

text \<open>
  \<open>firstDepth r xs ys\<close>: walking the ancestor depths from 0 downward, the first depth at
  which the two vectors differ has \<open>r\<close> between the entries.
\<close>

fun firstDepth :: "(int \<Rightarrow> int \<Rightarrow> bool) \<Rightarrow> int list \<Rightarrow> int list \<Rightarrow> bool" where
  "firstDepth r (x # xs) (y # ys) = (if x \<noteq> y then r x y else firstDepth r xs ys)"
| "firstDepth r xs ys = False"

definition allocateOrder :: "bool \<Rightarrow> cpuTreeNodeAttributes \<Rightarrow> cpuTreeNodeAttributes \<Rightarrow> bool" where
  "allocateOrder balancing a b \<longleftrightarrow>
     depth a > depth b
     \<or> (depth a = depth b
        \<and> (firstDepth (\<lambda>x y. x > y) (currentCpuCounts a) (currentCpuCounts b)
           \<or> (currentCpuCounts a = currentCpuCounts b
              \<and> (firstDepth (if balancing then (\<lambda>x y. x > y) else (\<lambda>x y. x < y))
                    (freeCpuCounts a) (freeCpuCounts b)
                 \<or> (freeCpuCounts a = freeCpuCounts b \<and> name (t a) < name (t b))))))"

definition releaseOrder :: "cpuTreeNodeAttributes \<Rightarrow> cpuTreeNodeAttributes \<Rightarrow> bool" where
  "releaseOrder a b \<longleftrightarrow>
     depth a > depth b
     \<or> (depth a = depth b
        \<and> (firstDepth (\<lambda>x y. x < y) (currentCpuCounts a) (currentCpuCounts b)
           \<or> (currentCpuCounts a = currentCpuCounts b
              \<and> (firstDepth (\<lambda>x y. x < y) (freeCpuCounts a) (freeCpuCounts b)
                 \<or> (freeCpuCounts a = freeCpuCounts b \<and> name (t a) > name (t b))))))"

subsection \<open>Example records\<close>

definition tnaCache0 :: cpuTreeNodeAttributes where
  "tnaCache0 = \<lparr>t = Node ''n0$0'' CPUTopologyLevelL2Cache {0, 1} [], depth = 1, currentCpus = {0},
       freeCpus = {1}, currentCpuCount = 1, currentCpuCounts = [1, 1], freeCpuCount = 1,
       freeCpuCounts = [3, 1]\<rparr>"

definition tnaCache1 :: cpuTreeNodeAttributes where
  "tnaCache1 = \<lparr>t = Node ''n0$1'' CPUTopologyLevelL2Cache {2, 3} [], depth = 1, currentCpus = {},
       freeCpus = {2, 3}, currentCpuCount = 0, currentCpuCounts = [1, 0], freeCpuCount = 2,
       freeCpuCounts = [3, 2]\<rparr>"

definition tnaNuma0 :: cpuTreeNodeAttributes where
  "tnaNuma0 = \<lparr>t = Node ''n0'' CPUTopologyLevelNuma {0, 1, 2, 3} [], depth = 0, currentCpus = {0},
       freeCpus = {1, 2, 3}, currentCpuCount = 1, currentCpuCounts = [1], freeCpuCount = 3,
       freeCpuCounts = [3]\<rparr>"

section \<open>Topology tree\<close>

text \<open>CopyTree: a deep copy has the same names, levels, cpus and structure.\<close>

fun CopyTree :: "cpuTreeNode \<Rightarrow> cpuTreeNode" where
  "CopyTree (Node n l c ch) = Node n l c (map CopyTree ch)"

text \<open>
  FindLeafWithCpu followed by SiblingIndex: the index, among the children of its parent,
  of the first leaf in pre-order whose cpus contain the cpu; \<open>idx\<close> is the index of the
  node itself (-1 for the root). None: no leaf has the cpu.
\<close>

fun leafSiblingIndex :: "int \<Rightarrow> int \<Rightarrow> cpuTreeNode \<Rightarrow> int option"
  and leafSiblingIndexes :: "int \<Rightarrow> int \<Rightarrow> cpuTreeNode list \<Rightarrow> int option" where
  "leafSiblingIndex cpu idx (Node n l c ch) =
     (if ch = [] then (if cpu \<in> c then Some idx else None)
      else leafSiblingIndexes cpu 0 ch)"
| "leafSiblingIndexes cpu idx [] = None"
| "leafSiblingIndexes cpu idx (child # rest) =
     (case leafSiblingIndex cpu idx child of
        Some i \<Rightarrow> Some i
      | None \<Rightarrow> leafSiblingIndexes cpu (idx + 1) rest)"

text \<open>The verb %d of fmt.Sprintf on an int.\<close>

fun decimal :: "nat \<Rightarrow> string" where
  "decimal n = (if n < 10 then [char_of (48 + n)] else decimal (n div 10) @ [char_of (48 + n mod 10)])"

definition showInt :: "int \<Rightarrow> string" where
  "showInt i = (if i < 0 then CHR ''-'' # decimal (nat (- i)) else decimal (nat i))"

text \<open>
  toAttributedSlice appends to one shared slice in pre-order; the model returns the records
  a call appends. The write at index \<open>d\<close> is in range on every call that starts from
  ToAttributedSlice, where \<open>d\<close> is the length of the two count vectors.
\<close>

fun toAttributedSlice ::
  "cpuset \<Rightarrow> cpuset \<Rightarrow> (cpuTreeNodeAttributes \<Rightarrow> bool) option \<Rightarrow> cpuTreeNode \<Rightarrow> nat \<Rightarrow>
   int list \<Rightarrow> int list \<Rightarrow> cpuTreeNodeAttributes list" where
  "toAttributedSlice current free flt (Node n l c ch) d currentCounts freeCounts =
     (let currentCpusHere = c \<inter> current;
          freeCpusHere = c \<inter> free;
          currentCpuCountHere = int (card currentCpusHere);
          currentCpuCountsHere = (currentCounts @ [0])[d := currentCpuCountHere];
          freeCpuCountHere = int (card freeCpusHere);
          freeCpuCountsHere = (freeCounts @ [0])[d := freeCpuCountHere];
          tna = \<lparr>t = Node n l c ch, depth = d, currentCpus = currentCpusHere,
                 freeCpus = freeCpusHere, currentCpuCount = currentCpuCountHere,
                 currentCpuCounts = currentCpuCountsHere, freeCpuCount = freeCpuCountHere,
                 freeCpuCounts = freeCpuCountsHere\<rparr>
      in if (case flt of None \<Rightarrow> False | Some f \<Rightarrow> \<not> f tna) then []
         else tna # concat (map (\<lambda>child. toAttributedSlice current free flt child
                                    (d + 1) currentCpuCountsHere freeCpuCountsHere) ch))"

definition ToAttributedSlice ::
  "cpuTreeNode \<Rightarrow> cpuset \<Rightarrow> cpuset \<Rightarrow> (cpuTreeNodeAttributes \<Rightarrow> bool) option \<Rightarrow> cpuTreeNodeAttributes list" where
  "ToAttributedSlice tree current free flt = toAttributedSlice current free flt tree 0 [] []"

subsection \<open>SplitLevel\<close>

text \<open>
  The map class -> cpus that SplitLevel fills from the ascending cpus of the whole tree,
  as an association list in order of first insertion. The classifier of NewAllocator ends
  the process (log.Fatalf) on a cpu without a leaf: that is None.
\<close>

fun classCpus :: "(int \<Rightarrow> int option) \<Rightarrow> int list \<Rightarrow> (int \<times> int list) list \<Rightarrow> (int \<times> int list) list option" where
  "classCpus cpuClassifier [] m = Some m"
| "classCpus cpuClassifier (cpu # rest) m =
     (case cpuClassifier cpu of
        None \<Rightarrow> None
      | Some class \<Rightarrow>
          classCpus cpuClassifier rest
            (case map_of m class of
               None \<Rightarrow> m @ [(class, [cpu])]
             | Some l \<Rightarrow> map (\<lambda>(k, v). if k = class then (k, v @ [cpu]) else (k, v)) m))"

text \<open>
  The walk that masks a copied child. Below the top of the copy, a node left without cpus
  is taken out of the children of its parent and its subtree is skipped (the result [] of
  \<open>maskBranch\<close>). At the top of the copy the parent pointer still is the node being
  split, whose children do not hold the copy: taking the copy out of them changes nothing,
  the subtree is skipped unmasked, and AddChild then adds the copy to the class node.
\<close>

fun maskBranch :: "cpuset \<Rightarrow> cpuTreeNode \<Rightarrow> cpuTreeNode list" where
  "maskBranch cpuMask (Node n l c ch) =
     (if card (c \<inter> cpuMask) = 0 then []
      else [Node n l (c \<inter> cpuMask) (concat (map (maskBranch cpuMask) ch))])"

definition maskNewChild :: "cpuset \<Rightarrow> cpuTreeNode \<Rightarrow> cpuTreeNode" where
  "maskNewChild cpuMask newChild =
     (if card (cpus newChild \<inter> cpuMask) = 0
      then Node (name newChild) (level newChild) (cpus newChild \<inter> cpuMask) (children newChild)
      else Node (name newChild) (level newChild) (cpus newChild \<inter> cpuMask)
             (concat (map (maskBranch cpuMask) (children newChild))))"

definition classNode :: "cpuTreeNode \<Rightarrow> int \<times> int list \<Rightarrow> cpuTreeNode" where
  "classNode tn kv =
     (let cpuMask = set (snd kv)
      in Node (name tn @ ''class'' @ showInt (fst kv)) (level tn) (cpus tn \<inter> cpuMask)
           (map (\<lambda>child. maskNewChild cpuMask (CopyTree child)) (children tn)))"

text \<open>
  The walk of SplitLevel over the copied tree. \<open>classes\<close> is the map of classes, None
  when the classifier ends the process; every node of the split level fills it anew from the
  cpus of the whole tree, with the same result. Go starts every range over a map at a point
  of its own choice, so the order of the classes is chosen anew at every node of the split
  level: \<open>rangeOver\<close> gives it for the node at position \<open>path\<close>, the indices of the
  children on the way from the root down to the node.
\<close>

fun splitWalk ::
  "(nat list \<Rightarrow> (int \<times> int list) list \<Rightarrow> (int \<times> int list) list) \<Rightarrow> CPUTopologyLevel \<Rightarrow>
   (int \<times> int list) list option \<Rightarrow> nat list \<Rightarrow> cpuTreeNode \<Rightarrow> cpuTreeNode option"
  and splitWalks ::
  "(nat list \<Rightarrow> (int \<times> int list) list \<Rightarrow> (int \<times> int list) list) \<Rightarrow> CPUTopologyLevel \<Rightarrow>
   (int \<times> int list) list option \<Rightarrow> nat list \<Rightarrow> nat \<Rightarrow> cpuTreeNode list \<Rightarrow> cpuTreeNode list option" where
  "splitWalk rangeOver splitLevel classes path (Node n l c ch) =
     (if l \<noteq> splitLevel
      then map_option (Node n l c) (splitWalks rangeOver splitLevel classes path 0 ch)
      else (case classes of
              None \<Rightarrow> None
            | Some m \<Rightarrow> Some (Node n l c (map (classNode (Node n l c ch)) (rangeOver path m)))))"
| "splitWalks rangeOver splitLevel classes path i [] = Some []"
| "splitWalks rangeOver splitLevel classes path i (child # rest) =
     (case splitWalk rangeOver splitLevel classes (path @ [i]) child of
        None \<Rightarrow> None
      | Some newChild \<Rightarrow>
          map_option ((#) newChild) (splitWalks rangeOver splitLevel classes path (i + 1) rest))"

definition SplitLevel ::
  "(nat list \<Rightarrow> (int \<times> int list) list \<Rightarrow> (int \<times> int list) list) \<Rightarrow> cpuTreeNode \<Rightarrow>
   CPUTopologyLevel \<Rightarrow> (int \<Rightarrow> int option) \<Rightarrow> cpuTreeNode option" where
  "SplitLevel rangeOver tree splitLevel cpuClassifier =
     splitWalk rangeOver splitLevel (classCpus cpuClassifier (List (cpus tree)) []) [] (CopyTree tree)"

section \<open>The allocator and its resizer pipeline\<close>

text \<open>
  The errors of the pipeline are made with fmt.Errorf; one constructor stands for each
  message. \<open>ErrNotEnoughFree\<close> is "not enough free CPUs" of resizeCpusMaxLocalSet,
  \<open>ErrNotEnoughFreeCpus\<close> and \<open>ErrNotEnoughCurrentCpus\<close> are the two errors of
  resizeCpusOnlyIfNecessary.
\<close>

datatype error =
  ErrNoResizerLeft
  | ErrNotEnoughFreeCpus
  | ErrNotEnoughCurrentCpus
  | ErrNoSingleCpuToAllocate
  | ErrDoubleAdd
  | ErrNoSingleCpuToFree
  | ErrDoubleRelease
  | ErrNotEnoughFree

type_synonym hintCache = "string \<Rightarrow> cpuset list option"

record cpuTreeAllocatorOptions =
  topologyBalancing :: bool
  preferSpreadOnPhysicalCores :: bool
  preferCloseToDevices :: "string list"
  preferFarFromDevices :: "string list"
  virtDevCpusets :: "hintCache option"
  deviceUpdateOnEveryCpu :: "(cpuset \<Rightarrow> hintCache \<Rightarrow> hintCache) option"

record cpuTreeAllocator =
  options :: cpuTreeAllocatorOptions
  root :: cpuTreeNode

text \<open>
  What a call can change: the cache of close cpu sets. \<open>deviceUpdates\<close> records the
  arguments of the calls of deviceUpdateOnEveryCpu, oldest first. The callback can write
  the map virtDevCpusets, which is the cache itself when it is set.
\<close>

record allocatorState =
  cacheCloseCpuSets :: hintCache
  deviceUpdates :: "cpuset list"

text \<open>
  What is decided outside the files at hand: the order of UnsortedList and of ranging over
  a Go map, and the answer of topology.NewTopologyHints (None: an error), each hint
  already parsed to a cpu set.
\<close>

record runtime =
  UnsortedList :: "cpuset \<Rightarrow> int list"
  NewTopologyHints :: "string \<Rightarrow> cpuset list option"
  mapRange :: "nat list \<Rightarrow> (int \<times> int list) list \<Rightarrow> (int \<times> int list) list"

text \<open>
  A resizer returns (addFrom, removeFrom, err) or panics; a call that never returns has no
  outcome (None).
\<close>

datatype outcome = Panic | Return cpuset cpuset "error option" allocatorState

type_synonym cpuResizer = "cpuset \<Rightarrow> cpuset \<Rightarrow> int \<Rightarrow> allocatorState \<Rightarrow> outcome option"

datatype cpuResizerFunc =
  OnlyIfNecessary | WithDynamicDeviceHints | WithDevices | OneAtATime | MaxLocalSet | Now

definition Size :: "cpuset \<Rightarrow> int" where
  "Size s = int (card s)"

text \<open>
  delta is a Go int of 64 bits, and \<open>-delta\<close> wraps at the least int: there it is
  the least int again.
\<close>

definition neg :: "int \<Rightarrow> int" where
  "neg d = (if d \<le> - (2 ^ 63) then d else - d)"

definition NewAllocator ::
  "runtime \<Rightarrow> cpuTreeNode \<Rightarrow> cpuTreeAllocatorOptions \<Rightarrow> (cpuTreeAllocator \<times> allocatorState) option" where
  "NewAllocator rt tree opts =
     (let st = \<lparr>cacheCloseCpuSets = (case virtDevCpusets opts of None \<Rightarrow> Map.empty | Some m \<Rightarrow> m),
                deviceUpdates = []\<rparr>
      in if preferSpreadOnPhysicalCores opts
         then (case SplitLevel (mapRange rt) tree CPUTopologyLevelNuma
                      (\<lambda>cpu. leafSiblingIndex cpu (- 1) tree) of
                 None \<Rightarrow> None
               | Some newTree \<Rightarrow> Some (\<lparr>options = opts, root = newTree\<rparr>, st))
         else Some (\<lparr>options = opts, root = tree\<rparr>, st))"

subsection \<open>Sorting\<close>

text \<open>
  Modelled from the spec: sort.Slice is the standard library of Go; the spec asks for
  stable sort semantics. The model is the insertion sort that sort.Slice runs on a short
  slice: each element moves left past the elements it is less than. \<open>placed\<close> is the
  sorted part, last element first. None: the comparator panics.
\<close>

fun sink :: "('a \<Rightarrow> 'a \<Rightarrow> bool option) \<Rightarrow> 'a \<Rightarrow> 'a list \<Rightarrow> 'a list option" where
  "sink lt x [] = Some [x]"
| "sink lt x (y # placed) =
     (case lt x y of
        None \<Rightarrow> None
      | Some True \<Rightarrow> map_option ((#) y) (sink lt x placed)
      | Some False \<Rightarrow> Some (x # y # placed))"

fun insertionSort :: "('a \<Rightarrow> 'a \<Rightarrow> bool option) \<Rightarrow> 'a list \<Rightarrow> 'a list \<Rightarrow> 'a list option" where
  "insertionSort lt [] placed = Some (rev placed)"
| "insertionSort lt (x # xs) placed =
     (case sink lt x placed of
        None \<Rightarrow> None
      | Some placed' \<Rightarrow> insertionSort lt xs placed')"

definition sortSlice :: "('a \<Rightarrow> 'a \<Rightarrow> bool option) \<Rightarrow> 'a list \<Rightarrow> 'a list option" where
  "sortSlice lt xs = insertionSort lt xs []"

subsection \<open>Resizers\<close>

text \<open>
  Each resizer takes the remaining resizers; all it does with them is consult
  nextCpuResizer. In the model it takes \<open>next\<close>, which is nextCpuResizer on the
  remaining resizers.
\<close>

definition resizeCpusNow :: "cpuResizer \<Rightarrow> cpuResizer" where
  "resizeCpusNow next current free delta st = Some (Return free current None st)"

definition resizeCpusOnlyIfNecessary :: "cpuResizer \<Rightarrow> cpuResizer" where
  "resizeCpusOnlyIfNecessary next current free delta st =
     (if delta = 0 then Some (Return {} {} None st)
      else if delta > 0 \<and> Size free < delta
        then Some (Return free {} (Some ErrNotEnoughFreeCpus) st)
      else if delta > 0 \<and> Size free = delta
        then Some (Return free {} None st)
      else if delta < 0 \<and> Size current < neg delta
        then Some (Return {} current (Some ErrNotEnoughCurrentCpus) st)
      else if delta < 0 \<and> Size current = neg delta
        then Some (Return {} current None st)
      else next current free delta st)"

definition deviceUpdate ::
  "cpuTreeAllocator \<Rightarrow> (cpuset \<Rightarrow> hintCache \<Rightarrow> hintCache) \<Rightarrow> cpuset \<Rightarrow> allocatorState \<Rightarrow> allocatorState" where
  "deviceUpdate ta callback current st =
     \<lparr>cacheCloseCpuSets =
        (if virtDevCpusets (options ta) = None then cacheCloseCpuSets st
         else callback current (cacheCloseCpuSets st)),
      deviceUpdates = deviceUpdates st @ [current]\<rparr>"

text \<open>
  The loop \<open>for { ... }\<close> of resizeCpusWithDynamicDeviceHints, entered at its head.
  \<open>addFrom.List()[0]\<close> panics on an empty set.
\<close>

partial_function (option) dynamicLoop ::
  "cpuTreeAllocator \<Rightarrow> (cpuset \<Rightarrow> hintCache \<Rightarrow> hintCache) \<Rightarrow> cpuResizer \<Rightarrow> int \<Rightarrow>
   cpuset \<Rightarrow> cpuset \<Rightarrow> cpuset \<Rightarrow> cpuset \<Rightarrow> cpuset \<Rightarrow> allocatorState \<Rightarrow> outcome option" where
  "dynamicLoop ta callback next delta addFrom removeFrom addedCpus current free st =
     (case List addFrom of
        [] \<Rightarrow> Some Panic
      | addedCpu # others \<Rightarrow>
          if Size (addedCpus \<union> {addedCpu}) \<ge> delta
          then Some (Return ((addedCpus \<union> {addedCpu}) \<union> addFrom) removeFrom None st)
          else (case next (current \<union> {addedCpu}) (free - (current \<union> {addedCpu})) 1
                       (deviceUpdate ta callback (current \<union> {addedCpu}) st) of
                  None \<Rightarrow> None
                | Some Panic \<Rightarrow> Some Panic
                | Some (Return addFrom' removeFrom' err st') \<Rightarrow>
                    if err \<noteq> None \<or> Size addFrom' < 1
                    then Some (Return (addedCpus \<union> {addedCpu}) removeFrom' err st')
                    else dynamicLoop ta callback next delta addFrom' removeFrom'
                           (addedCpus \<union> {addedCpu}) (current \<union> {addedCpu})
                           (free - (current \<union> {addedCpu})) st'))"

declare dynamicLoop.simps [code]

definition resizeCpusWithDynamicDeviceHints :: "cpuTreeAllocator \<Rightarrow> cpuResizer \<Rightarrow> cpuResizer" where
  "resizeCpusWithDynamicDeviceHints ta next current free delta st =
     (case deviceUpdateOnEveryCpu (options ta) of
        None \<Rightarrow> next current free delta st
      | Some callback \<Rightarrow>
          if delta \<le> 0 then next current free delta (deviceUpdate ta callback current st)
          else (case next current free delta (deviceUpdate ta callback current st) of
                  None \<Rightarrow> None
                | Some Panic \<Rightarrow> Some Panic
                | Some (Return addFrom removeFrom err st') \<Rightarrow>
                    if err \<noteq> None \<or> Size addFrom < delta
                    then Some (Return addFrom removeFrom err st')
                    else dynamicLoop ta callback next delta addFrom removeFrom {} current free st'))"

text \<open>
  topologyHintCpus: the cached cpu sets of a device; on a miss the provider is asked,
  an error is cached as the empty list, and hints are cached one by one (no hint, no
  entry).
\<close>

definition topologyHintCpus :: "runtime \<Rightarrow> string \<Rightarrow> allocatorState \<Rightarrow> cpuset list \<times> allocatorState" where
  "topologyHintCpus rt dev st =
     (case cacheCloseCpuSets st dev of
        Some closeCpuSets \<Rightarrow> (closeCpuSets, st)
      | None \<Rightarrow>
          (case NewTopologyHints rt dev of
             None \<Rightarrow> ([], st\<lparr>cacheCloseCpuSets := (cacheCloseCpuSets st)(dev \<mapsto> [])\<rparr>)
           | Some topologyHints \<Rightarrow>
               if topologyHints = [] then ([], st)
               else (topologyHints, st\<lparr>cacheCloseCpuSets := (cacheCloseCpuSets st)(dev \<mapsto> topologyHints)\<rparr>)))"

text \<open>The two loops of resizeCpusWithDevices that build allCloseCpuSets.\<close>

fun closeToDevices :: "runtime \<Rightarrow> string list \<Rightarrow> allocatorState \<Rightarrow> cpuset list list \<times> allocatorState" where
  "closeToDevices rt [] st = ([], st)"
| "closeToDevices rt (devPath # rest) st =
     (case topologyHintCpus rt devPath st of
        (closeCpuSets, st1) \<Rightarrow>
          (case closeToDevices rt rest st1 of
             (further, st2) \<Rightarrow> ((if length closeCpuSets > 0 then [closeCpuSets] else []) @ further, st2)))"

fun farFromDevices :: "runtime \<Rightarrow> cpuset \<Rightarrow> string list \<Rightarrow> allocatorState \<Rightarrow> cpuset list list \<times> allocatorState" where
  "farFromDevices rt free [] st = ([], st)"
| "farFromDevices rt free (devPath # rest) st =
     (case topologyHintCpus rt devPath st of
        (farCpuSets, st1) \<Rightarrow>
          (case farFromDevices rt free rest st1 of
             (further, st2) \<Rightarrow> (map (\<lambda>farCpuSet. [free - farCpuSet]) farCpuSets @ further, st2)))"

text \<open>Growing: the free cpus narrowed by each hint that leaves at least delta of them.\<close>

definition takeHints :: "int \<Rightarrow> cpuset \<Rightarrow> cpuset list list \<Rightarrow> cpuset" where
  "takeHints delta free allCloseCpuSets =
     foldl (\<lambda>remainingFreeCpus hinted.
              if Size (remainingFreeCpus \<inter> hinted) \<ge> delta then remainingFreeCpus \<inter> hinted
              else remainingFreeCpus)
       free (concat allCloseCpuSets)"

text \<open>
  Shrinking: currentCpuHints is a map from cpu to uint64, a missing key reads 0; every
  cpu set of the group at \<open>hintPriority\<close> adds \<open>1 << (len - 1 - hintPriority)\<close> to
  its current cpus.
\<close>

definition addHint :: "64 word \<Rightarrow> (int \<Rightarrow> 64 word) \<Rightarrow> int list \<Rightarrow> (int \<Rightarrow> 64 word)" where
  "addHint w hints cpuList = foldl (\<lambda>h cpu. h(cpu := h cpu + w)) hints cpuList"

definition currentCpuHints :: "runtime \<Rightarrow> cpuset list list \<Rightarrow> cpuset \<Rightarrow> (int \<Rightarrow> 64 word)" where
  "currentCpuHints rt allCloseCpuSets current =
     foldl (\<lambda>hints (hintPriority, closeCpuSets).
              foldl (\<lambda>h hinted.
                       addHint (push_bit (length allCloseCpuSets - 1 - hintPriority) 1) h
                         (UnsortedList rt (hinted \<inter> current)))
                hints closeCpuSets)
       (\<lambda>cpu. 0) (zip [0..<length allCloseCpuSets] allCloseCpuSets)"

text \<open>The loop over leastHintedCpus that runs while the hint value is at most maxHints.\<close>

fun splitHinted :: "(int \<Rightarrow> 64 word) \<Rightarrow> 64 word \<Rightarrow> int list \<Rightarrow> cpuset \<Rightarrow> cpuset \<Rightarrow> cpuset \<times> cpuset" where
  "splitHinted hints maxHints [] forSure maybe = (forSure, maybe)"
| "splitHinted hints maxHints (cpu # rest) forSure maybe =
     (if hints cpu \<le> maxHints
      then (if hints cpu < maxHints
            then splitHinted hints maxHints rest (forSure \<union> {cpu}) maybe
            else splitHinted hints maxHints rest forSure (maybe \<union> {cpu}))
      else (forSure, maybe))"

text \<open>The loop over freeFromMaybe that stops once -delta cpus are to be freed.\<close>

fun fillFromMaybe :: "int \<Rightarrow> int list \<Rightarrow> cpuset \<Rightarrow> cpuset" where
  "fillFromMaybe delta [] forSure = forSure"
| "fillFromMaybe delta (cpu # rest) forSure =
     (if Size forSure \<ge> neg delta then forSure
      else fillFromMaybe delta rest (forSure \<union> {cpu}))"

text \<open>
  The part of resizeCpusWithDevices for delta < 0, up to the call of the next resizer:
  the hint values, the cpus sorted by them, maxHints read at index -delta (a panic when
  the index is out of range), and the two sets currentToFreeForSure and
  currentToFreeMaybe. None is the panic.
\<close>

definition hintedToFree :: "runtime \<Rightarrow> cpuset list list \<Rightarrow> cpuset \<Rightarrow> int \<Rightarrow> (cpuset \<times> cpuset) option" where
  "hintedToFree rt allCloseCpuSets current delta =
     (let hints = currentCpuHints rt allCloseCpuSets current
      in case sortSlice (\<lambda>i j. Some (hints i < hints j)) (UnsortedList rt current) of
           None \<Rightarrow> None
         | Some leastHintedCpus \<Rightarrow>
             if neg delta < 0 \<or> nat (neg delta) \<ge> length leastHintedCpus then None
             else Some (splitHinted hints (hints (leastHintedCpus ! nat (neg delta)))
                          leastHintedCpus {} {}))"

definition resizeCpusWithDevices :: "runtime \<Rightarrow> cpuTreeAllocator \<Rightarrow> cpuResizer \<Rightarrow> cpuResizer" where
  "resizeCpusWithDevices rt ta next current free delta st =
     (case closeToDevices rt (preferCloseToDevices (options ta)) st of
        (closeSets, st1) \<Rightarrow>
     (case farFromDevices rt free (preferFarFromDevices (options ta)) st1 of
        (farSets, st2) \<Rightarrow>
     (let allCloseCpuSets = closeSets @ farSets
      in if length allCloseCpuSets = 0 then next current free delta st2
         else if delta > 0 then next current (takeHints delta free allCloseCpuSets) delta st2
         else if delta < 0 then
           (case hintedToFree rt allCloseCpuSets current delta of
              None \<Rightarrow> Some Panic
            | Some (currentToFreeForSure, currentToFreeMaybe) \<Rightarrow>
                (case next currentToFreeMaybe free (delta + Size currentToFreeForSure) st2 of
                   None \<Rightarrow> None
                 | Some Panic \<Rightarrow> Some Panic
                 | Some (Return unused freeFromMaybe err st3) \<Rightarrow>
                     Some (Return free
                             (fillFromMaybe delta (UnsortedList rt freeFromMaybe)
                                currentToFreeForSure)
                             err st3)))
         else Some (Return free current None st2))))"

text \<open>
  The loop of resizeCpusOneAtATime for delta > 0: \<open>rounds\<close> rounds are left, \<open>n\<close>
  is the loop variable.
\<close>

fun addOneAtATime ::
  "cpuResizer \<Rightarrow> cpuset \<Rightarrow> cpuset \<Rightarrow> nat \<Rightarrow> nat \<Rightarrow> cpuset \<Rightarrow> cpuset \<Rightarrow> cpuset \<Rightarrow> allocatorState \<Rightarrow> outcome option" where
  "addOneAtATime next addFromSuperset removeFromSuperset 0 n addFrom current free st =
     Some (Return addFrom removeFromSuperset None st)"
| "addOneAtATime next addFromSuperset removeFromSuperset (Suc rounds) n addFrom current free st =
     (case next current free 1 st of
        None \<Rightarrow> None
      | Some Panic \<Rightarrow> Some Panic
      | Some (Return addSingleFrom unused err st') \<Rightarrow>
          if err \<noteq> None then Some (Return addFromSuperset removeFromSuperset err st')
          else if Size addSingleFrom \<noteq> 1
            then Some (Return addFromSuperset removeFromSuperset (Some ErrNoSingleCpuToAllocate) st')
          else if Size (addFrom \<union> addSingleFrom) \<noteq> int n + 1
            then Some (Return addFromSuperset removeFromSuperset (Some ErrDoubleAdd) st')
          else addOneAtATime next addFromSuperset removeFromSuperset rounds (n + 1)
                 (addFrom \<union> addSingleFrom) (current \<union> addSingleFrom) (free - addSingleFrom) st')"

text \<open>The loop of resizeCpusOneAtATime for delta \<le> 0.\<close>

fun removeOneAtATime ::
  "cpuResizer \<Rightarrow> nat \<Rightarrow> nat \<Rightarrow> cpuset \<Rightarrow> cpuset \<Rightarrow> cpuset \<Rightarrow> allocatorState \<Rightarrow> outcome option" where
  "removeOneAtATime next 0 n removeFrom current free st = Some (Return {} removeFrom None st)"
| "removeOneAtATime next (Suc rounds) n removeFrom current free st =
     (case next current free (- 1) st of
        None \<Rightarrow> None
      | Some Panic \<Rightarrow> Some Panic
      | Some (Return unused removeSingleFrom err st') \<Rightarrow>
          if err \<noteq> None then Some (Return {} removeFrom err st')
          else if Size removeSingleFrom \<noteq> 1
            then Some (Return {} removeFrom (Some ErrNoSingleCpuToFree) st')
          else if Size (removeFrom \<union> removeSingleFrom) \<noteq> int n + 1
            then Some (Return {} removeFrom (Some ErrDoubleRelease) st')
          else removeOneAtATime next rounds (n + 1) (removeFrom \<union> removeSingleFrom)
                 (current - removeSingleFrom) (free \<union> removeSingleFrom) st')"

definition resizeCpusOneAtATime :: "cpuTreeAllocator \<Rightarrow> cpuResizer \<Rightarrow> cpuResizer" where
  "resizeCpusOneAtATime ta next current free delta st =
     (if delta > 0
      then (case next current free delta st of
              None \<Rightarrow> None
            | Some Panic \<Rightarrow> Some Panic
            | Some (Return addFromSuperset removeFromSuperset err st') \<Rightarrow>
                if \<not> preferSpreadOnPhysicalCores (options ta) \<or> Size addFromSuperset = delta
                then Some (Return addFromSuperset removeFromSuperset err st')
                else addOneAtATime next addFromSuperset removeFromSuperset (nat delta) 0 {}
                       current free st')
      else removeOneAtATime next (nat (neg delta)) 0 {} current free st)"

text \<open>The filter of resizeCpusMaxLocalSet: false on a branch with too few cpus.\<close>

definition localFilter :: "int \<Rightarrow> cpuTreeNodeAttributes \<Rightarrow> bool" where
  "localFilter delta tna =
     (if delta > 0 \<and> freeCpuCount tna - delta < 0 then False
      else if delta < 0 \<and> currentCpuCount tna + delta < 0 then False
      else True)"

definition resizeCpusMaxLocalSet :: "cpuTreeAllocator \<Rightarrow> cpuResizer \<Rightarrow> cpuResizer" where
  "resizeCpusMaxLocalSet ta next current free delta st =
     (case sortSlice (if delta > 0 then sorterAllocate (topologyBalancing (options ta))
                      else sorterRelease (topologyBalancing (options ta)))
             (ToAttributedSlice (root ta) current free (Some (localFilter delta))) of
        None \<Rightarrow> Some Panic
      | Some [] \<Rightarrow> Some (Return free current (Some ErrNotEnoughFree) st)
      | Some (best # others) \<Rightarrow> next (currentCpus best) (freeCpus best) delta st)"

definition callResizer :: "runtime \<Rightarrow> cpuTreeAllocator \<Rightarrow> cpuResizerFunc \<Rightarrow> cpuResizer \<Rightarrow> cpuResizer" where
  "callResizer rt ta r next =
     (case r of
        OnlyIfNecessary \<Rightarrow> resizeCpusOnlyIfNecessary next
      | WithDynamicDeviceHints \<Rightarrow> resizeCpusWithDynamicDeviceHints ta next
      | WithDevices \<Rightarrow> resizeCpusWithDevices rt ta next
      | OneAtATime \<Rightarrow> resizeCpusOneAtATime ta next
      | MaxLocalSet \<Rightarrow> resizeCpusMaxLocalSet ta next
      | Now \<Rightarrow> resizeCpusNow next)"

text \<open>
  nextCpuResizer: the internal error on an empty list, else the first resizer is called
  with the remaining ones.
\<close>

primrec nextCpuResizer :: "runtime \<Rightarrow> cpuTreeAllocator \<Rightarrow> cpuResizerFunc list \<Rightarrow> cpuResizer" where
  "nextCpuResizer rt ta [] =
     (\<lambda>current free delta st. Some (Return free current (Some ErrNoResizerLeft) st))"
| "nextCpuResizer rt ta (r # remainingResizers) =
     callResizer rt ta r (nextCpuResizer rt ta remainingResizers)"

definition resizers :: "cpuResizerFunc list" where
  "resizers = [OnlyIfNecessary, WithDynamicDeviceHints, WithDevices, OneAtATime, MaxLocalSet, Now]"

definition ResizeCpus :: "runtime \<Rightarrow> cpuTreeAllocator \<Rightarrow> cpuResizer" where
  "ResizeCpus rt ta current free delta st = nextCpuResizer rt ta resizers current free delta st"

text \<open>What a caller sees of an outcome: the two sets and the error.\<close>

fun returned :: "outcome option \<Rightarrow> (cpuset \<times> cpuset \<times> error option) option" where
  "returned (Some (Return addFrom removeFrom err st)) = Some (addFrom, removeFrom, err)"
| "returned other = None"

fun updatesOf :: "outcome option \<Rightarrow> cpuset list option" where
  "updatesOf (Some (Return addFrom removeFrom err st)) = Some (deviceUpdates st)"
| "updatesOf other = None"

subsection \<open>Example topologies and allocators\<close>

definition goRuntime :: runtime where
  "goRuntime = \<lparr>UnsortedList = List, NewTopologyHints = (\<lambda>dev. None),
      mapRange = (\<lambda>path. id)\<rparr>"

definition plainOptions :: cpuTreeAllocatorOptions where
  "plainOptions = \<lparr>topologyBalancing = False, preferSpreadOnPhysicalCores = False,
     preferCloseToDevices = [], preferFarFromDevices = [], virtDevCpusets = None,
     deviceUpdateOnEveryCpu = None\<rparr>"

definition noState :: allocatorState where
  "noState = \<lparr>cacheCloseCpuSets = Map.empty, deviceUpdates = []\<rparr>"

definition hybridNuma :: cpuTreeNode where
  "hybridNuma =
     Node ''n0'' CPUTopologyLevelNuma {0, 1, 2}
       [Node ''n0$0'' CPUTopologyLevelL2Cache {0, 1}
          [Node ''n0cpu0'' CPUTopologyLevelCore {0, 1}
             [Node ''n0cpu0t0'' CPUTopologyLevelThread {0} [],
              Node ''n0cpu0t1'' CPUTopologyLevelThread {1} []]],
        Node ''n0$1'' CPUTopologyLevelL2Cache {2}
          [Node ''n0cpu2'' CPUTopologyLevelCore {2}
             [Node ''n0cpu2t2'' CPUTopologyLevelThread {2} []]]]"

definition twoCaches :: cpuTreeNode where
  "twoCaches =
     Node ''p0d0n0'' CPUTopologyLevelNuma {0, 1, 2, 3, 4, 5, 6, 7}
       [Node ''p0d0n0$0'' CPUTopologyLevelL2Cache {0, 1, 2, 3}
          [Node ''p0d0n0cpu0'' CPUTopologyLevelCore {0, 1}
             [Node ''p0d0n0cpu0t0'' CPUTopologyLevelThread {0} [],
              Node ''p0d0n0cpu0t1'' CPUTopologyLevelThread {1} []],
           Node ''p0d0n0cpu2'' CPUTopologyLevelCore {2, 3}
             [Node ''p0d0n0cpu2t2'' CPUTopologyLevelThread {2} [],
              Node ''p0d0n0cpu2t3'' CPUTopologyLevelThread {3} []]],
        Node ''p0d0n0$1'' CPUTopologyLevelL2Cache {4, 5, 6, 7}
          [Node ''p0d0n0cpu4'' CPUTopologyLevelCore {4, 5}
             [Node ''p0d0n0cpu4t4'' CPUTopologyLevelThread {4} [],
              Node ''p0d0n0cpu4t5'' CPUTopologyLevelThread {5} []],
           Node ''p0d0n0cpu6'' CPUTopologyLevelCore {6, 7}
             [Node ''p0d0n0cpu6t6'' CPUTopologyLevelThread {6} [],
              Node ''p0d0n0cpu6t7'' CPUTopologyLevelThread {7} []]]]"

definition leafOnly :: cpuTreeNode where
  "leafOnly = Node ''system'' CPUTopologyLevelSystem {0, 1, 2, 3} []"


subsection \<open>Properties of a resizer that the stages hand on\<close>

definition goodRuntime :: "runtime \<Rightarrow> bool" where
  "goodRuntime rt \<longleftrightarrow>
     (\<forall>s. finite s \<longrightarrow> set (UnsortedList rt s) = s \<and> distinct (UnsortedList rt s))"

definition within :: "cpuResizer \<Rightarrow> bool" where
  "within next \<longleftrightarrow>
     (\<forall>current free delta st addFrom removeFrom err st'.
        finite current \<longrightarrow> finite free \<longrightarrow>
        next current free delta st = Some (Return addFrom removeFrom err st') \<longrightarrow>
        addFrom \<subseteq> free \<and> removeFrom \<subseteq> current)"

definition addWithin :: "cpuResizer \<Rightarrow> bool" where
  "addWithin next \<longleftrightarrow>
     (\<forall>current free delta st addFrom removeFrom err st'.
        finite current \<longrightarrow> finite free \<longrightarrow>
        next current free delta st = Some (Return addFrom removeFrom err st') \<longrightarrow>
        addFrom \<subseteq> free)"

definition sized :: "cpuResizer \<Rightarrow> bool" where
  "sized next \<longleftrightarrow>
     (\<forall>current free delta st addFrom removeFrom st'.
        finite current \<longrightarrow> finite free \<longrightarrow>
        next current free delta st = Some (Return addFrom removeFrom None st') \<longrightarrow>
        (delta > 0 \<longrightarrow> delta \<le> Size addFrom) \<and> (delta < 0 \<longrightarrow> neg delta \<le> Size removeFrom))"

text \<open>A resizer that never returns the internal error of nextCpuResizer.\<close>

definition neverOutOfResizers :: "cpuResizer \<Rightarrow> bool" where
  "neverOutOfResizers next \<longleftrightarrow>
     (\<forall>current free delta st addFrom removeFrom st'.
        next current free delta st \<noteq> Some (Return addFrom removeFrom (Some ErrNoResizerLeft) st'))"

text \<open>A call that panics.\<close>

fun panicked :: "outcome option \<Rightarrow> bool" where
  "panicked (Some Panic) = True"
| "panicked other = False"

text \<open>
  Two allocators for one tree and one record of options: NewAllocator run where Go
  ranges over the classes of SplitLevel in the order of first insertion, and where it
  ranges over them in the opposite order.
\<close>

definition spreadOptions :: cpuTreeAllocatorOptions where
  "spreadOptions = plainOptions\<lparr>preferSpreadOnPhysicalCores := True\<rparr>"

definition reversedRange :: runtime where
  "reversedRange = goRuntime\<lparr>mapRange := (\<lambda>path. rev)\<rparr>"

text \<open>NewAllocator, then ResizeCpus on the new allocator: what the caller sees.\<close>

definition resizeOnNew ::
  "runtime \<Rightarrow> cpuTreeNode \<Rightarrow> cpuTreeAllocatorOptions \<Rightarrow> cpuset \<Rightarrow> cpuset \<Rightarrow> int \<Rightarrow>
   (cpuset \<times> cpuset \<times> error option) option" where
  "resizeOnNew rt tree opts current free delta =
     (case NewAllocator rt tree opts of
        None \<Rightarrow> None
      | Some (ta, st) \<Rightarrow> returned (ResizeCpus rt ta current free delta st))"

text \<open>
  The number of records that resizeCpusMaxLocalSet sorts when it is called on the new
  allocator with these cpus and this delta.
\<close>

definition sortedByMaxLocalSet ::
  "runtime \<Rightarrow> cpuTreeNode \<Rightarrow> cpuTreeAllocatorOptions \<Rightarrow> cpuset \<Rightarrow> cpuset \<Rightarrow> int \<Rightarrow> nat option" where
  "sortedByMaxLocalSet rt tree opts current free delta =
     (case NewAllocator rt tree opts of
        None \<Rightarrow> None
      | Some (ta, st) \<Rightarrow>
          Some (length (ToAttributedSlice (root ta) current free (Some (localFilter delta)))))"

section \<open>Properties of the comparators\<close>

lemma scanCounts_Same: "length xs = length ys \<Longrightarrow> (scanCounts xs ys = Same) = (xs = ys)"
  by (induction xs ys rule: list_induct2) auto

lemma scanCounts_in_range: "length xs = length ys \<Longrightarrow> scanCounts xs ys \<noteq> OutOfRange"
  by (induction xs ys rule: list_induct2) auto

lemma scanCounts_Differ:
  "length xs = length ys \<Longrightarrow> scanCounts xs ys = Differ x y \<Longrightarrow> firstDepth r xs ys = r x y"
  by (induction xs ys rule: list_induct2) (auto split: if_splits)

lemma scanCounts_Differ_neq:
  "scanCounts xs ys = Differ x y \<Longrightarrow> xs \<noteq> ys"
  by (induction xs ys rule: scanCounts.induct) (auto split: if_splits)

lemma firstDepth_refl: "firstDepth r xs xs = False"
  by (induction xs) auto

lemma firstDepth_neq: "firstDepth r xs ys \<Longrightarrow> xs \<noteq> ys"
  using firstDepth_refl by blast

lemma firstDepth_trans:
  assumes "\<And>x y z. r x y \<Longrightarrow> r y z \<Longrightarrow> r x z" and "\<And>x y. r x y \<Longrightarrow> x \<noteq> y"
  shows "length xs = length ys \<Longrightarrow> length ys = length zs \<Longrightarrow>
         firstDepth r xs ys \<Longrightarrow> firstDepth r ys zs \<Longrightarrow> firstDepth r xs zs"
proof (induction xs ys zs rule: list_induct3)
  case Nil
  then show ?case by simp
next
  case (Cons x xs y ys z zs)
  then show ?case using assms by (auto split: if_splits)
qed

lemma sorterAllocate_spec:
  assumes "attributed a" and "attributed b"
  shows "sorterAllocate bal a b = Some (allocateOrder bal a b)"
proof (cases "depth a = depth b")
  case False
  then show ?thesis by (auto simp: sorterAllocate_def allocateOrder_def)
next
  case True
  with assms have lc: "length (currentCpuCounts a) = length (currentCpuCounts b)"
    and lf: "length (freeCpuCounts a) = length (freeCpuCounts b)"
    by (simp_all add: attributed_def)
  show ?thesis
  proof (cases "scanCounts (currentCpuCounts a) (currentCpuCounts b)")
    case (Differ x y)
    from scanCounts_Differ [OF lc Differ] scanCounts_Differ_neq [OF Differ] True Differ
    show ?thesis by (simp add: sorterAllocate_def allocateOrder_def)
  next
    case OutOfRange
    with scanCounts_in_range [OF lc] show ?thesis by simp
  next
    case Same
    then have ceq: "currentCpuCounts a = currentCpuCounts b"
      using scanCounts_Same [OF lc] by simp
    show ?thesis
    proof (cases "scanCounts (freeCpuCounts a) (freeCpuCounts b)")
      case (Differ x y)
      from scanCounts_Differ [OF lf Differ] scanCounts_Differ_neq [OF Differ] True Differ Same ceq
      show ?thesis by (simp add: sorterAllocate_def allocateOrder_def firstDepth_refl)
    next
      case OutOfRange
      with scanCounts_in_range [OF lf] show ?thesis by simp
    next
      case Same2: Same
      then have feq: "freeCpuCounts a = freeCpuCounts b"
        using scanCounts_Same [OF lf] by simp
      from True Same Same2 ceq feq show ?thesis
        by (simp add: sorterAllocate_def allocateOrder_def firstDepth_refl)
    qed
  qed
qed

lemma sorterRelease_spec:
  assumes "attributed a" and "attributed b"
  shows "sorterRelease bal a b = Some (releaseOrder a b)"
proof (cases "depth a = depth b")
  case False
  then show ?thesis by (auto simp: sorterRelease_def releaseOrder_def)
next
  case True
  with assms have lc: "length (currentCpuCounts a) = length (currentCpuCounts b)"
    and lf: "length (freeCpuCounts a) = length (freeCpuCounts b)"
    by (simp_all add: attributed_def)
  show ?thesis
  proof (cases "scanCounts (currentCpuCounts a) (currentCpuCounts b)")
    case (Differ x y)
    from scanCounts_Differ [OF lc Differ] scanCounts_Differ_neq [OF Differ] True Differ
    show ?thesis by (simp add: sorterRelease_def releaseOrder_def)
  next
    case OutOfRange
    with scanCounts_in_range [OF lc] show ?thesis by simp
  next
    case Same
    then have ceq: "currentCpuCounts a = currentCpuCounts b"
      using scanCounts_Same [OF lc] by simp
    show ?thesis
    proof (cases "scanCounts (freeCpuCounts a) (freeCpuCounts b)")
      case (Differ x y)
      from scanCounts_Differ [OF lf Differ] scanCounts_Differ_neq [OF Differ] True Differ Same ceq
      show ?thesis by (simp add: sorterRelease_def releaseOrder_def firstDepth_refl)
    next
      case OutOfRange
      with scanCounts_in_range [OF lf] show ?thesis by simp
    next
      case Same2: Same
      then have feq: "freeCpuCounts a = freeCpuCounts b"
        using scanCounts_Same [OF lf] by simp
      from True Same Same2 ceq feq show ?thesis
        by (simp add: sorterRelease_def releaseOrder_def firstDepth_refl)
    qed
  qed
qed

lemma allocateOrder_irrefl: "\<not> allocateOrder bal a a"
  by (simp add: allocateOrder_def firstDepth_refl)

lemma releaseOrder_irrefl: "\<not> releaseOrder a a"
  by (simp add: releaseOrder_def firstDepth_refl)

lemma allocateOrder_trans:
  assumes "attributed a" "attributed b" "attributed c"
    and ab: "allocateOrder bal a b" and bc: "allocateOrder bal b c"
  shows "allocateOrder bal a c"
proof -
  have tr1: "\<And>xs ys zs. length xs = length ys \<Longrightarrow> length ys = length zs \<Longrightarrow>
         firstDepth (\<lambda>x y. x > y) xs ys \<Longrightarrow> firstDepth (\<lambda>x y. x > y) ys zs \<Longrightarrow> firstDepth (\<lambda>x y. x > y) xs zs"
    by (rule firstDepth_trans) auto
  have tr2: "\<And>xs ys zs. length xs = length ys \<Longrightarrow> length ys = length zs \<Longrightarrow>
         firstDepth (\<lambda>x y. x < y) xs ys \<Longrightarrow> firstDepth (\<lambda>x y. x < y) ys zs \<Longrightarrow> firstDepth (\<lambda>x y. x < y) xs zs"
    by (rule firstDepth_trans) auto
  show ?thesis
  proof (cases "depth a = depth b \<and> depth b = depth c")
    case False
    with ab bc show ?thesis by (auto simp: allocateOrder_def)
  next
    case True
    with assms have l: "length (currentCpuCounts a) = length (currentCpuCounts b)"
      "length (currentCpuCounts b) = length (currentCpuCounts c)"
      "length (freeCpuCounts a) = length (freeCpuCounts b)"
      "length (freeCpuCounts b) = length (freeCpuCounts c)"
      by (simp_all add: attributed_def)
    from ab bc True show ?thesis
      unfolding allocateOrder_def
      using tr1 [OF l(1) l(2)] tr1 [OF l(3) l(4)] tr2 [OF l(3) l(4)]
      by (auto split: if_splits)
  qed
qed

lemma releaseOrder_trans:
  assumes "attributed a" "attributed b" "attributed c"
    and ab: "releaseOrder a b" and bc: "releaseOrder b c"
  shows "releaseOrder a c"
proof -
  have tr2: "\<And>xs ys zs. length xs = length ys \<Longrightarrow> length ys = length zs \<Longrightarrow>
         firstDepth (\<lambda>x y. x < y) xs ys \<Longrightarrow> firstDepth (\<lambda>x y. x < y) ys zs \<Longrightarrow> firstDepth (\<lambda>x y. x < y) xs zs"
    by (rule firstDepth_trans) auto
  show ?thesis
  proof (cases "depth a = depth b \<and> depth b = depth c")
    case False
    with ab bc show ?thesis by (auto simp: releaseOrder_def)
  next
    case True
    with assms have l: "length (currentCpuCounts a) = length (currentCpuCounts b)"
      "length (currentCpuCounts b) = length (currentCpuCounts c)"
      "length (freeCpuCounts a) = length (freeCpuCounts b)"
      "length (freeCpuCounts b) = length (freeCpuCounts c)"
      by (simp_all add: attributed_def)
    from ab bc True show ?thesis
      unfolding releaseOrder_def
      using tr2 [OF l(1) l(2)] tr2 [OF l(3) l(4)]
      by (auto split: if_splits)
  qed
qed


text \<open>
  C6. On attributed records the allocate comparator decides exactly the order the
  specification words: deeper first, then higher current counts from depth 0 downward,
  then free counts (higher first under topology balancing, lower first without), then
  ascending node name. It never panics there, and it is a strict ordering: irreflexive,
  asymmetric and transitive.
\<close>

theorem sorterAllocate_strict_order:
  assumes "attributed a" and "attributed b" and "attributed c"
  shows "sorterAllocate bal a b = Some (allocateOrder bal a b)
    \<and> sorterAllocate bal a a = Some False
    \<and> (sorterAllocate bal a b = Some True \<longrightarrow> sorterAllocate bal b a = Some False)
    \<and> (sorterAllocate bal a b = Some True \<and> sorterAllocate bal b c = Some True
         \<longrightarrow> sorterAllocate bal a c = Some True)"
proof -
  have ab: "sorterAllocate bal a b = Some (allocateOrder bal a b)"
    and ba: "sorterAllocate bal b a = Some (allocateOrder bal b a)"
    and bc: "sorterAllocate bal b c = Some (allocateOrder bal b c)"
    and ac: "sorterAllocate bal a c = Some (allocateOrder bal a c)"
    and aa: "sorterAllocate bal a a = Some (allocateOrder bal a a)"
    using assms by (simp_all add: sorterAllocate_spec)
  have asym: "allocateOrder bal a b \<Longrightarrow> \<not> allocateOrder bal b a"
    using allocateOrder_trans [OF assms(1) assms(2) assms(1)] allocateOrder_irrefl by blast
  have tr: "allocateOrder bal a b \<Longrightarrow> allocateOrder bal b c \<Longrightarrow> allocateOrder bal a c"
    using allocateOrder_trans [OF assms] by blast
  show ?thesis using ab ba bc ac aa asym tr allocateOrder_irrefl by auto
qed


theorem sorterAllocate_strict_order_witness:
  "attributed tnaCache0 \<and> attributed tnaCache1 \<and> attributed tnaNuma0
   \<and> sorterAllocate True tnaCache0 tnaCache1 = Some True
   \<and> sorterAllocate True tnaCache1 tnaCache0 = Some False
   \<and> sorterAllocate True tnaCache1 tnaNuma0 = Some True
   \<and> sorterAllocate True tnaCache0 tnaNuma0 = Some True"
  using sorterAllocate_strict_order [of tnaCache0 tnaCache1 tnaNuma0 True]
  by (simp add: attributed_def allocateOrder_def sorterAllocate_def tnaCache0_def tnaCache1_def tnaNuma0_def)

text \<open>
  C7. On attributed records the release comparator decides: deeper first, then lower
  current counts from depth 0 downward, then lower free counts (the same direction with
  and without topology balancing), then descending node name. It never panics there and
  is irreflexive, asymmetric and transitive.
\<close>

theorem sorterRelease_strict_order:
  assumes "attributed a" and "attributed b" and "attributed c"
  shows "sorterRelease bal a b = Some (releaseOrder a b)
    \<and> sorterRelease True a b = sorterRelease False a b
    \<and> sorterRelease bal a a = Some False
    \<and> (sorterRelease bal a b = Some True \<longrightarrow> sorterRelease bal b a = Some False)
    \<and> (sorterRelease bal a b = Some True \<and> sorterRelease bal b c = Some True
         \<longrightarrow> sorterRelease bal a c = Some True)"
proof -
  have ab: "sorterRelease bal a b = Some (releaseOrder a b)"
    and ba: "sorterRelease bal b a = Some (releaseOrder b a)"
    and bc: "sorterRelease bal b c = Some (releaseOrder b c)"
    and ac: "sorterRelease bal a c = Some (releaseOrder a c)"
    and aa: "sorterRelease bal a a = Some (releaseOrder a a)"
    using assms by (simp_all add: sorterRelease_spec)
  have fl: "sorterRelease True a b = sorterRelease False a b"
    using assms by (simp add: sorterRelease_spec)
  have asym: "releaseOrder a b \<Longrightarrow> \<not> releaseOrder b a"
    using releaseOrder_trans [OF assms(1) assms(2) assms(1)] releaseOrder_irrefl by blast
  have tr: "releaseOrder a b \<Longrightarrow> releaseOrder b c \<Longrightarrow> releaseOrder a c"
    using releaseOrder_trans [OF assms] by blast
  show ?thesis using ab ba bc ac aa fl asym tr releaseOrder_irrefl by auto
qed

theorem sorterRelease_strict_order_witness:
  "attributed tnaCache0 \<and> attributed tnaCache1 \<and> attributed tnaNuma0
   \<and> sorterRelease True tnaCache1 tnaCache0 = Some True
   \<and> sorterRelease False tnaCache1 tnaCache0 = Some True
   \<and> sorterRelease True tnaCache0 tnaCache1 = Some False
   \<and> sorterRelease True tnaCache0 tnaNuma0 = Some True
   \<and> sorterRelease True tnaCache1 tnaNuma0 = Some True"
  using sorterRelease_strict_order [of tnaCache1 tnaCache0 tnaNuma0 True]
  by (simp add: attributed_def releaseOrder_def sorterRelease_def tnaCache0_def tnaCache1_def tnaNuma0_def)

section \<open>The code at concrete inputs\<close>


text \<open>
  C9. SplitLevel on a NUMA node with a two-thread core under one cache and a one-thread
  core under the other: under the class of the second threads the copy of the second
  cache is left without cpus, and it stays in the tree, with its core and thread unmasked.
\<close>

theorem SplitLevel_keeps_empty_copy:
  "SplitLevel (\<lambda>path. id) hybridNuma CPUTopologyLevelNuma (\<lambda>cpu. leafSiblingIndex cpu (- 1) hybridNuma) =
   Some (Node ''n0'' CPUTopologyLevelNuma {0, 1, 2}
    [Node ''n0class0'' CPUTopologyLevelNuma {0, 2}
      [Node ''n0$0'' CPUTopologyLevelL2Cache {0}
        [Node ''n0cpu0'' CPUTopologyLevelCore {0}
          [Node ''n0cpu0t0'' CPUTopologyLevelThread {0} []]],
       Node ''n0$1'' CPUTopologyLevelL2Cache {2}
        [Node ''n0cpu2'' CPUTopologyLevelCore {2}
          [Node ''n0cpu2t2'' CPUTopologyLevelThread {2} []]]],
     Node ''n0class1'' CPUTopologyLevelNuma {1}
      [Node ''n0$0'' CPUTopologyLevelL2Cache {1}
        [Node ''n0cpu0'' CPUTopologyLevelCore {1}
          [Node ''n0cpu0t1'' CPUTopologyLevelThread {1} []]],
       Node ''n0$1'' CPUTopologyLevelL2Cache {}
        [Node ''n0cpu2'' CPUTopologyLevelCore {2}
          [Node ''n0cpu2t2'' CPUTopologyLevelThread {2} []]]]])"
  by code_simp

text \<open>
  C8. With the callback set and delta = -1 the callback is called, once, with the current
  cpus, before the call is forwarded.
\<close>

theorem dynamic_hints_update_on_release:
  "updatesOf (ResizeCpus goRuntime
      \<lparr>options = plainOptions\<lparr>deviceUpdateOnEveryCpu := Some (\<lambda>cpus cache. cache)\<rparr>, root = twoCaches\<rparr>
      {0, 1, 4} {2, 3, 5, 6, 7} (- 1) noState) = Some [{0, 1, 4}]
   \<and> returned (ResizeCpus goRuntime
      \<lparr>options = plainOptions\<lparr>deviceUpdateOnEveryCpu := Some (\<lambda>cpus cache. cache)\<rparr>, root = twoCaches\<rparr>
      {0, 1, 4} {2, 3, 5, 6, 7} (- 1) noState) = Some ({}, {4}, None)"
  by code_simp

subsection \<open>Sorting keeps the elements\<close>

lemma sink_mset: "sink lt x placed = Some q \<Longrightarrow> mset q = add_mset x (mset placed)"
proof (induction placed arbitrary: q)
  case Nil
  then show ?case by auto
next
  case (Cons y placed)
  then show ?case by (auto split: option.splits bool.splits)
qed

lemma insertionSort_mset:
  "insertionSort lt xs placed = Some q \<Longrightarrow> mset q = mset xs + mset placed"
proof (induction xs arbitrary: placed q)
  case Nil
  then show ?case by auto
next
  case (Cons x xs)
  then show ?case by (auto split: option.splits dest!: sink_mset)
qed

lemma sortSlice_mset: "sortSlice lt xs = Some ys \<Longrightarrow> mset ys = mset xs"
  by (auto simp: sortSlice_def dest: insertionSort_mset)

lemma sortSlice_set: "sortSlice lt xs = Some ys \<Longrightarrow> set ys = set xs"
  by (metis sortSlice_mset set_mset_mset)

lemma sortSlice_length: "sortSlice lt xs = Some ys \<Longrightarrow> length ys = length xs"
  by (metis sortSlice_mset size_mset)

subsection \<open>The records of an attributed slice\<close>

lemma toAttributedSlice_records:
  "a \<in> set (toAttributedSlice current free flt tree d cc fc) \<Longrightarrow>
     currentCpus a \<subseteq> current \<and> freeCpus a \<subseteq> free
     \<and> currentCpuCount a = Size (currentCpus a) \<and> freeCpuCount a = Size (freeCpus a)
     \<and> (\<forall>f. flt = Some f \<longrightarrow> f a)"
proof (induction current free flt tree d cc fc rule: toAttributedSlice.induct)
  case (1 current free flt n l c ch d currentCounts freeCounts)
  show ?case
  proof (cases "case flt of None \<Rightarrow> False | Some f \<Rightarrow> \<not> f
        \<lparr>t = Node n l c ch, depth = d, currentCpus = c \<inter> current,
                 freeCpus = c \<inter> free, currentCpuCount = int (card (c \<inter> current)),
                 currentCpuCounts = (currentCounts @ [0])[d := int (card (c \<inter> current))], freeCpuCount = int (card (c \<inter> free)),
                 freeCpuCounts = (freeCounts @ [0])[d := int (card (c \<inter> free))]\<rparr>")
    case True
    with "1.prems" show ?thesis by (simp add: Let_def)
  next
    case False
    with "1.prems" consider
      (here) "a = \<lparr>t = Node n l c ch, depth = d, currentCpus = c \<inter> current,
                 freeCpus = c \<inter> free, currentCpuCount = int (card (c \<inter> current)),
                 currentCpuCounts = (currentCounts @ [0])[d := int (card (c \<inter> current))], freeCpuCount = int (card (c \<inter> free)),
                 freeCpuCounts = (freeCounts @ [0])[d := int (card (c \<inter> free))]\<rparr>"
      | (below) child where "child \<in> set ch"
         "a \<in> set (toAttributedSlice current free flt child (d + 1)
                ((currentCounts @ [0])[d := int (card (c \<inter> current))])
                ((freeCounts @ [0])[d := int (card (c \<inter> free))]))"
      by (auto simp: Let_def)
    then show ?thesis
    proof cases
      case here
      with False show ?thesis by (auto simp: Size_def split: option.splits)
    next
      case below
      from "1.IH" [OF refl refl refl refl refl refl refl _ below(1) below(2)] False
      show ?thesis by blast
    qed
  qed
qed

lemma toAttributedSlice_attributed:
  "a \<in> set (toAttributedSlice current free flt tree d cc fc) \<Longrightarrow>
   length cc = d \<Longrightarrow> length fc = d \<Longrightarrow> attributed a"
proof (induction current free flt tree d cc fc rule: toAttributedSlice.induct)
  case (1 current free flt n l c ch d currentCounts freeCounts)
  show ?case
  proof (cases "case flt of None \<Rightarrow> False | Some f \<Rightarrow> \<not> f
        \<lparr>t = Node n l c ch, depth = d, currentCpus = c \<inter> current,
                 freeCpus = c \<inter> free, currentCpuCount = int (card (c \<inter> current)),
                 currentCpuCounts = (currentCounts @ [0])[d := int (card (c \<inter> current))], freeCpuCount = int (card (c \<inter> free)),
                 freeCpuCounts = (freeCounts @ [0])[d := int (card (c \<inter> free))]\<rparr>")
    case True
    with "1.prems" show ?thesis by (simp add: Let_def)
  next
    case False
    with "1.prems" consider
      (here) "a = \<lparr>t = Node n l c ch, depth = d, currentCpus = c \<inter> current,
                 freeCpus = c \<inter> free, currentCpuCount = int (card (c \<inter> current)),
                 currentCpuCounts = (currentCounts @ [0])[d := int (card (c \<inter> current))], freeCpuCount = int (card (c \<inter> free)),
                 freeCpuCounts = (freeCounts @ [0])[d := int (card (c \<inter> free))]\<rparr>"
      | (below) child where "child \<in> set ch"
         "a \<in> set (toAttributedSlice current free flt child (d + 1)
                ((currentCounts @ [0])[d := int (card (c \<inter> current))])
                ((freeCounts @ [0])[d := int (card (c \<inter> free))]))"
      by (auto simp: Let_def)
    then show ?thesis
    proof cases
      case here
      with "1.prems" show ?thesis by (simp add: attributed_def)
    next
      case below
      from "1.IH" [OF refl refl refl refl refl refl refl _ below(1) below(2)] False "1.prems"
      show ?thesis by simp
    qed
  qed
qed

subsection \<open>Containment and size of the returned sets, stage by stage\<close>

lemma withinD:
  "within next \<Longrightarrow> finite current \<Longrightarrow> finite free \<Longrightarrow>
   next current free delta st = Some (Return addFrom removeFrom err st') \<Longrightarrow>
   addFrom \<subseteq> free \<and> removeFrom \<subseteq> current"
  unfolding within_def by blast

lemma sizedD:
  "sized next \<Longrightarrow> finite current \<Longrightarrow> finite free \<Longrightarrow>
   next current free delta st = Some (Return addFrom removeFrom None st') \<Longrightarrow>
   (delta > 0 \<longrightarrow> delta \<le> Size addFrom) \<and> (delta < 0 \<longrightarrow> neg delta \<le> Size removeFrom)"
  unfolding sized_def by blast

lemma within_addWithin: "within next \<Longrightarrow> addWithin next"
  unfolding within_def addWithin_def by blast

lemma within_Now: "within (resizeCpusNow next)"
  by (auto simp: within_def resizeCpusNow_def)

lemma within_empty: "within (nextCpuResizer rt ta [])"
  by (auto simp: within_def)

lemma within_OnlyIfNecessary: "within next \<Longrightarrow> within (resizeCpusOnlyIfNecessary next)"
  unfolding within_def resizeCpusOnlyIfNecessary_def
  by (auto split: if_splits)

lemma addWithin_OnlyIfNecessary: "addWithin next \<Longrightarrow> addWithin (resizeCpusOnlyIfNecessary next)"
  unfolding addWithin_def resizeCpusOnlyIfNecessary_def
  by (auto split: if_splits)

lemma sized_OnlyIfNecessary: "sized next \<Longrightarrow> sized (resizeCpusOnlyIfNecessary next)"
  unfolding sized_def resizeCpusOnlyIfNecessary_def
  by (auto split: if_splits)

lemma MaxLocalSet_best:
  assumes "resizeCpusMaxLocalSet ta next current free delta st = Some (Return a r e st')"
  shows "(a = free \<and> r = current \<and> e = Some ErrNotEnoughFree \<and> st' = st)
    \<or> (\<exists>best. best \<in> set (ToAttributedSlice (root ta) current free (Some (localFilter delta)))
          \<and> next (currentCpus best) (freeCpus best) delta st = Some (Return a r e st'))"
proof (cases "sortSlice (if delta > 0 then sorterAllocate (topologyBalancing (options ta))
                      else sorterRelease (topologyBalancing (options ta)))
             (ToAttributedSlice (root ta) current free (Some (localFilter delta)))")
  case None
  with assms show ?thesis by (simp add: resizeCpusMaxLocalSet_def)
next
  case (Some tnas)
  show ?thesis
  proof (cases tnas)
    case Nil
    with Some assms show ?thesis by (simp add: resizeCpusMaxLocalSet_def)
  next
    case (Cons best others)
    with Some have "best \<in> set (ToAttributedSlice (root ta) current free (Some (localFilter delta)))"
      using sortSlice_set [OF Some] by auto
    with Some Cons assms show ?thesis by (auto simp: resizeCpusMaxLocalSet_def)
  qed
qed

lemma slice_records:
  "best \<in> set (ToAttributedSlice tree current free (Some (localFilter delta))) \<Longrightarrow>
     currentCpus best \<subseteq> current \<and> freeCpus best \<subseteq> free
     \<and> currentCpuCount best = Size (currentCpus best) \<and> freeCpuCount best = Size (freeCpus best)
     \<and> localFilter delta best"
  unfolding ToAttributedSlice_def by (drule toAttributedSlice_records) simp

lemma within_MaxLocalSet: "within next \<Longrightarrow> within (resizeCpusMaxLocalSet ta next)"
proof (unfold within_def, intro allI impI)
  fix current free delta st a r e st'
  assume w: "\<forall>current free delta st addFrom removeFrom err st'.
        finite current \<longrightarrow> finite free \<longrightarrow>
        next current free delta st = Some (Return addFrom removeFrom err st') \<longrightarrow>
        addFrom \<subseteq> free \<and> removeFrom \<subseteq> current"
    and fin: "finite current" "finite free"
    and res: "resizeCpusMaxLocalSet ta next current free delta st = Some (Return a r e st')"
  from MaxLocalSet_best [OF res] show "a \<subseteq> free \<and> r \<subseteq> current"
  proof
    assume "a = free \<and> r = current \<and> e = Some ErrNotEnoughFree \<and> st' = st"
    then show ?thesis by simp
  next
    assume "\<exists>best. best \<in> set (ToAttributedSlice (root ta) current free (Some (localFilter delta)))
          \<and> next (currentCpus best) (freeCpus best) delta st = Some (Return a r e st')"
    then obtain best where b: "best \<in> set (ToAttributedSlice (root ta) current free (Some (localFilter delta)))"
      and n: "next (currentCpus best) (freeCpus best) delta st = Some (Return a r e st')" by blast
    from slice_records [OF b] have sub: "currentCpus best \<subseteq> current" "freeCpus best \<subseteq> free" by simp_all
    with fin have "finite (currentCpus best)" "finite (freeCpus best)" by (auto intro: finite_subset)
    with w n have "a \<subseteq> freeCpus best \<and> r \<subseteq> currentCpus best" by blast
    with sub show ?thesis by blast
  qed
qed

lemma sized_MaxLocalSet_Now: "sized (resizeCpusMaxLocalSet ta (resizeCpusNow next))"
proof (unfold sized_def, intro allI impI)
  fix current free delta st a r st'
  assume fin: "finite current" "finite free"
    and res: "resizeCpusMaxLocalSet ta (resizeCpusNow next) current free delta st = Some (Return a r None st')"
  from MaxLocalSet_best [OF res] obtain best where
    b: "best \<in> set (ToAttributedSlice (root ta) current free (Some (localFilter delta)))"
    and n: "resizeCpusNow next (currentCpus best) (freeCpus best) delta st = Some (Return a r None st')"
    by auto
  from n have ar: "a = freeCpus best" "r = currentCpus best" by (simp_all add: resizeCpusNow_def)
  from slice_records [OF b] ar show "(delta > 0 \<longrightarrow> delta \<le> Size a) \<and> (delta < 0 \<longrightarrow> neg delta \<le> Size r)"
    by (auto simp: localFilter_def neg_def split: if_splits)
qed

lemma Size_finite_pos: "0 < Size s \<Longrightarrow> finite s"
  unfolding Size_def using card.infinite by fastforce

lemma Size_one: "Size s = 1 \<Longrightarrow> finite s \<and> s \<noteq> {}"
  unfolding Size_def using card.infinite by fastforce

lemma Size_mono: "finite B \<Longrightarrow> A \<subseteq> B \<Longrightarrow> Size A \<le> Size B"
  unfolding Size_def by (simp add: card_mono)

lemma addOneAtATime_result:
  assumes "within next"
  shows "addOneAtATime next asuper rsuper rounds n addFrom current free st = Some (Return a r e st') \<Longrightarrow>
    finite current \<Longrightarrow> finite free \<Longrightarrow> addFrom \<subseteq> free0 \<Longrightarrow> free \<subseteq> free0 \<Longrightarrow>
    Size addFrom = int n \<Longrightarrow>
    (a = asuper \<and> r = rsuper \<and> e \<noteq> None) \<or> (a \<subseteq> free0 \<and> r = rsuper \<and> e = None \<and> Size a = int n + int rounds)"
proof (induction rounds arbitrary: n addFrom current free st)
  case 0
  then show ?case by auto
next
  case (Suc rounds)
  show ?case
  proof (cases "next current free 1 st")
    case None
    with Suc.prems show ?thesis by simp
  next
    case (Some oc)
    show ?thesis
    proof (cases oc)
      case Panic
      with Some Suc.prems show ?thesis by simp
    next
      case (Return single unused err st1)
      from withinD [OF assms Suc.prems(2,3)] Some Return
      have sub: "single \<subseteq> free" by blast
      show ?thesis
      proof (cases "err \<noteq> None \<or> Size single \<noteq> 1 \<or> Size (addFrom \<union> single) \<noteq> int n + 1")
        case True
        with Some Return Suc.prems(1) show ?thesis by (auto split: if_splits)
      next
        case False
        with Some Return Suc.prems(1)
        have rec: "addOneAtATime next asuper rsuper rounds (n + 1) (addFrom \<union> single)
                 (current \<union> single) (free - single) st1 = Some (Return a r e st')"
          by simp
        from False have "finite single" using Size_one by blast
        with Suc.prems sub have "finite (current \<union> single)" "finite (free - single)"
          "addFrom \<union> single \<subseteq> free0" "free - single \<subseteq> free0"
          by auto
        moreover from False have "Size (addFrom \<union> single) = int (n + 1)" by simp
        ultimately show ?thesis using Suc.IH [OF rec] by auto
      qed
    qed
  qed
qed

lemma removeOneAtATime_result:
  assumes "within next"
  shows "removeOneAtATime next rounds n removeFrom current free st = Some (Return a r e st') \<Longrightarrow>
    finite current \<Longrightarrow> finite free \<Longrightarrow> removeFrom \<subseteq> current0 \<Longrightarrow> current \<subseteq> current0 \<Longrightarrow>
    Size removeFrom = int n \<Longrightarrow>
    a = {} \<and> r \<subseteq> current0 \<and> Size r \<le> int n + int rounds \<and> (e = None \<longrightarrow> Size r = int n + int rounds)"
proof (induction rounds arbitrary: n removeFrom current free st)
  case 0
  then show ?case by auto
next
  case (Suc rounds)
  show ?case
  proof (cases "next current free (- 1) st")
    case None
    with Suc.prems show ?thesis by simp
  next
    case (Some oc)
    show ?thesis
    proof (cases oc)
      case Panic
      with Some Suc.prems show ?thesis by simp
    next
      case (Return unused single err st1)
      from withinD [OF assms Suc.prems(2,3)] Some Return
      have sub: "single \<subseteq> current" by blast
      show ?thesis
      proof (cases "err \<noteq> None \<or> Size single \<noteq> 1 \<or> Size (removeFrom \<union> single) \<noteq> int n + 1")
        case True
        with Some Return Suc.prems show ?thesis by (auto split: if_splits)
      next
        case False
        with Some Return Suc.prems(1)
        have rec: "removeOneAtATime next rounds (n + 1) (removeFrom \<union> single)
                 (current - single) (free \<union> single) st1 = Some (Return a r e st')"
          by simp
        from False have "finite single" using Size_one by blast
        with Suc.prems sub have "finite (current - single)" "finite (free \<union> single)"
          "removeFrom \<union> single \<subseteq> current0" "current - single \<subseteq> current0"
          by auto
        moreover from False have "Size (removeFrom \<union> single) = int (n + 1)" by simp
        ultimately show ?thesis using Suc.IH [OF rec] by auto
      qed
    qed
  qed
qed

lemma within_OneAtATime:
  assumes "within next"
  shows "within (resizeCpusOneAtATime ta next)"
proof (unfold within_def, intro allI impI)
  fix current free delta st a r e st'
  assume fin: "finite current" "finite free"
    and res: "resizeCpusOneAtATime ta next current free delta st = Some (Return a r e st')"
  show "a \<subseteq> free \<and> r \<subseteq> current"
  proof (cases "delta > 0")
    case False
    with res have "removeOneAtATime next (nat (neg delta)) 0 {} current free st = Some (Return a r e st')"
      by (simp add: resizeCpusOneAtATime_def)
    from removeOneAtATime_result [OF assms this fin, of current] show ?thesis
      by (simp add: Size_def)
  next
    case True
    show ?thesis
    proof (cases "next current free delta st")
      case None
      with True res show ?thesis by (simp add: resizeCpusOneAtATime_def)
    next
      case (Some oc)
      show ?thesis
      proof (cases oc)
        case Panic
        with Some True res show ?thesis by (simp add: resizeCpusOneAtATime_def)
      next
        case (Return asuper rsuper err st1)
        from withinD [OF assms fin] Some Return have sub: "asuper \<subseteq> free" "rsuper \<subseteq> current" by blast+
        show ?thesis
        proof (cases "\<not> preferSpreadOnPhysicalCores (options ta) \<or> Size asuper = delta")
          case True
          with Some Return \<open>delta > 0\<close> res sub show ?thesis
            by (auto simp: resizeCpusOneAtATime_def)
        next
          case False
          with Some Return \<open>delta > 0\<close> res
          have "addOneAtATime next asuper rsuper (nat delta) 0 {} current free st1 = Some (Return a r e st')"
            by (auto simp: resizeCpusOneAtATime_def)
          from addOneAtATime_result [OF assms this fin, of free] sub show ?thesis
            by (auto simp: Size_def)
        qed
      qed
    qed
  qed
qed

lemma sized_OneAtATime:
  assumes "within next" and "sized next"
  shows "sized (resizeCpusOneAtATime ta next)"
proof (unfold sized_def, intro allI impI)
  fix current free delta st a r st'
  assume fin: "finite current" "finite free"
    and res: "resizeCpusOneAtATime ta next current free delta st = Some (Return a r None st')"
  show "(delta > 0 \<longrightarrow> delta \<le> Size a) \<and> (delta < 0 \<longrightarrow> neg delta \<le> Size r)"
  proof (cases "delta > 0")
    case False
    with res have "removeOneAtATime next (nat (neg delta)) 0 {} current free st = Some (Return a r None st')"
      by (simp add: resizeCpusOneAtATime_def)
    from removeOneAtATime_result [OF assms(1) this fin, of current] False show ?thesis
      by (simp add: Size_def)
  next
    case True
    show ?thesis
    proof (cases "next current free delta st")
      case None
      with True res show ?thesis by (simp add: resizeCpusOneAtATime_def)
    next
      case (Some oc)
      show ?thesis
      proof (cases oc)
        case Panic
        with Some True res show ?thesis by (simp add: resizeCpusOneAtATime_def)
      next
        case (Return asuper rsuper err st1)
        show ?thesis
        proof (cases "\<not> preferSpreadOnPhysicalCores (options ta) \<or> Size asuper = delta")
          case True
          with Some Return \<open>delta > 0\<close> res
          have "next current free delta st = Some (Return a r None st')"
            by (auto simp: resizeCpusOneAtATime_def)
          from sizedD [OF assms(2) fin this] \<open>delta > 0\<close> show ?thesis by simp
        next
          case False
          with Some Return \<open>delta > 0\<close> res
          have "addOneAtATime next asuper rsuper (nat delta) 0 {} current free st1 = Some (Return a r None st')"
            by (auto simp: resizeCpusOneAtATime_def)
          from addOneAtATime_result [OF assms(1) this fin, of free] \<open>delta > 0\<close> show ?thesis
            by (auto simp: Size_def)
        qed
      qed
    qed
  qed
qed

subsection \<open>The static device hints\<close>

lemma takeHints_subset: "takeHints delta free allCloseCpuSets \<subseteq> free"
proof -
  have "foldl (\<lambda>remainingFreeCpus hinted.
              if Size (remainingFreeCpus \<inter> hinted) \<ge> delta then remainingFreeCpus \<inter> hinted
              else remainingFreeCpus) s xs \<subseteq> s" for s xs
  proof (induction xs arbitrary: s)
    case Nil
    show ?case by simp
  next
    case (Cons x xs)
    show ?case using Cons.IH [of "s \<inter> x"] Cons.IH [of s] by auto
  qed
  then show ?thesis by (simp add: takeHints_def)
qed

lemma splitHinted_sets:
  "splitHinted hints maxHints xs forSure maybe = (s, m) \<Longrightarrow>
   s \<subseteq> forSure \<union> {x \<in> set xs. hints x < maxHints}
   \<and> m \<subseteq> maybe \<union> {x \<in> set xs. hints x = maxHints}
   \<and> forSure \<subseteq> s \<and> maybe \<subseteq> m"
proof (induction xs arbitrary: forSure maybe)
  case Nil
  then show ?case by simp
next
  case (Cons x xs)
  show ?case
  proof (cases "hints x \<le> maxHints")
    case False
    with Cons.prems show ?thesis by auto
  next
    case True
    show ?thesis
    proof (cases "hints x < maxHints")
      case True
      with Cons.prems \<open>hints x \<le> maxHints\<close>
      have "splitHinted hints maxHints xs (forSure \<union> {x}) maybe = (s, m)" by simp
      from Cons.IH [OF this] True show ?thesis by auto
    next
      case False
      with Cons.prems \<open>hints x \<le> maxHints\<close>
      have "splitHinted hints maxHints xs forSure (maybe \<union> {x}) = (s, m)" by simp
      from Cons.IH [OF this] False \<open>hints x \<le> maxHints\<close> show ?thesis by auto
    qed
  qed
qed

lemma hintedToFree_sets:
  assumes "goodRuntime rt" and "finite current"
    and "hintedToFree rt allCloseCpuSets current delta = Some (forSure, maybe)"
  shows "forSure \<subseteq> current \<and> maybe \<subseteq> current \<and> forSure \<inter> maybe = {}"
proof -
  let ?h = "currentCpuHints rt allCloseCpuSets current"
  from assms(3) obtain least where
    srt: "sortSlice (\<lambda>i j. Some (?h i < ?h j)) (UnsortedList rt current) = Some least"
    and sp: "splitHinted ?h (?h (least ! nat (neg delta))) least {} {} = (forSure, maybe)"
    by (auto simp: hintedToFree_def Let_def split: option.splits if_splits)
  from sortSlice_set [OF srt] assms(1,2) have "set least = current"
    by (simp add: goodRuntime_def)
  moreover from splitHinted_sets [OF sp]
  have "forSure \<subseteq> {x \<in> set least. ?h x < ?h (least ! nat (neg delta))}"
    and "maybe \<subseteq> {x \<in> set least. ?h x = ?h (least ! nat (neg delta))}" by auto
  ultimately show ?thesis by fastforce
qed

lemma fillFromMaybe_sets:
  "forSure \<subseteq> fillFromMaybe delta xs forSure \<and> fillFromMaybe delta xs forSure \<subseteq> forSure \<union> set xs"
proof (induction xs arbitrary: forSure)
  case Nil
  show ?case by simp
next
  case (Cons x xs)
  show ?case using Cons.IH [of "forSure \<union> {x}"] by auto
qed

lemma fillFromMaybe_size:
  "finite forSure \<Longrightarrow>
   neg delta \<le> Size (fillFromMaybe delta xs forSure) \<or> fillFromMaybe delta xs forSure = forSure \<union> set xs"
proof (induction xs arbitrary: forSure)
  case Nil
  show ?case by simp
next
  case (Cons x xs)
  show ?case
  proof (cases "Size forSure \<ge> neg delta")
    case True
    then show ?thesis by simp
  next
    case False
    with Cons.IH [of "forSure \<union> {x}"] Cons.prems show ?thesis by auto
  qed
qed

lemma WithDevices_unfold:
  assumes c: "closeToDevices rt (preferCloseToDevices (options ta)) st = (closeSets, st1)"
    and f: "farFromDevices rt free (preferFarFromDevices (options ta)) st1 = (farSets, st2)"
    and hs: "hs = closeSets @ farSets"
  shows "resizeCpusWithDevices rt ta next current free delta st =
     (if length hs = 0 then next current free delta st2
      else if delta > 0 then next current (takeHints delta free hs) delta st2
      else if delta < 0 then
           (case hintedToFree rt hs current delta of
              None \<Rightarrow> Some Panic
            | Some (currentToFreeForSure, currentToFreeMaybe) \<Rightarrow>
                (case next currentToFreeMaybe free (delta + Size currentToFreeForSure) st2 of
                   None \<Rightarrow> None
                 | Some Panic \<Rightarrow> Some Panic
                 | Some (Return unused freeFromMaybe err st3) \<Rightarrow>
                     Some (Return free
                             (fillFromMaybe delta (UnsortedList rt freeFromMaybe)
                                currentToFreeForSure)
                             err st3)))
      else Some (Return free current None st2))"
  unfolding resizeCpusWithDevices_def Let_def by (simp only: c f prod.case hs)


lemma WithDevices_shrink:
  assumes "(case hintedToFree rt hs current delta of
              None \<Rightarrow> Some Panic
            | Some (currentToFreeForSure, currentToFreeMaybe) \<Rightarrow>
                (case next currentToFreeMaybe free (delta + Size currentToFreeForSure) st2 of
                   None \<Rightarrow> None
                 | Some Panic \<Rightarrow> Some Panic
                 | Some (Return unused freeFromMaybe err st3) \<Rightarrow>
                     Some (Return free
                             (fillFromMaybe delta (UnsortedList rt freeFromMaybe)
                                currentToFreeForSure)
                             err st3))) = Some (Return a r e st')"
  obtains forSure maybe unused freeFromMaybe where
    "hintedToFree rt hs current delta = Some (forSure, maybe)"
    "next maybe free (delta + Size forSure) st2 = Some (Return unused freeFromMaybe e st')"
    "a = free" "r = fillFromMaybe delta (UnsortedList rt freeFromMaybe) forSure"
proof (cases "hintedToFree rt hs current delta")
  case None
  with assms show ?thesis by simp
next
  case (Some p)
  obtain forSure maybe where p: "p = (forSure, maybe)" by (cases p)
  show ?thesis
  proof (cases "next maybe free (delta + Size forSure) st2")
    case None
    with assms Some p show ?thesis by simp
  next
    case oc: (Some oc)
    show ?thesis
    proof (cases oc)
      case Panic
      with assms Some p oc show ?thesis by simp
    next
      case (Return unused ffm err st3)
      with assms Some p oc have "a = free" "r = fillFromMaybe delta (UnsortedList rt ffm) forSure"
        "err = e" "st3 = st'" by simp_all
      with Some p oc Return show ?thesis using that by simp
    qed
  qed
qed

lemma WithDevices_cases [consumes 1, case_names forward shrink zero]:
  assumes "resizeCpusWithDevices rt ta next current free delta st = Some (Return a r e st')"
  obtains (forward) st2 free' where
      "free' \<subseteq> free" "next current free' delta st2 = Some (Return a r e st')"
  | (shrink) hs forSure maybe st2 unused freeFromMaybe where
      "delta < 0" "hintedToFree rt hs current delta = Some (forSure, maybe)"
      "next maybe free (delta + Size forSure) st2 = Some (Return unused freeFromMaybe e st')"
      "a = free" "r = fillFromMaybe delta (UnsortedList rt freeFromMaybe) forSure"
  | (zero) "delta = 0" "a = free" "r = current" "e = None"
proof -
  obtain closeSets st1 where c: "closeToDevices rt (preferCloseToDevices (options ta)) st = (closeSets, st1)"
    by (cases "closeToDevices rt (preferCloseToDevices (options ta)) st") simp
  obtain farSets st2 where f: "farFromDevices rt free (preferFarFromDevices (options ta)) st1 = (farSets, st2)"
    by (cases "farFromDevices rt free (preferFarFromDevices (options ta)) st1") simp
  define hs where "hs = closeSets @ farSets"
  note unf = WithDevices_unfold [OF c f hs_def, of "next" current delta]
  show ?thesis
  proof (cases "length hs = 0")
    case True
    from unf have "resizeCpusWithDevices rt ta next current free delta st = next current free delta st2"
      by (simp only: True if_True simp_thms)
    with assms have "next current free delta st2 = Some (Return a r e st')" by (simp only:)
    then show ?thesis by (rule forward [OF subset_refl])
  next
    case False
    consider (grow) "delta > 0" | (less) "delta < 0" | (null) "delta = 0" by linarith
    then show ?thesis
    proof cases
      case grow
      from unf have "resizeCpusWithDevices rt ta next current free delta st
          = next current (takeHints delta free hs) delta st2"
        by (simp only: False grow if_True if_False)
      with assms have "next current (takeHints delta free hs) delta st2 = Some (Return a r e st')"
        by (simp only:)
      then show ?thesis by (rule forward [OF takeHints_subset])
    next
      case null
      then have z: "\<not> delta > 0" "\<not> delta < 0" by simp_all
      from unf have "resizeCpusWithDevices rt ta next current free delta st
          = Some (Return free current None st2)"
        by (simp only: False z if_False)
      with assms have "Some (Return free current None st2) = Some (Return a r e st')"
        by (simp only:)
      then have "a = free" "r = current" "e = None" by simp_all
      with null show ?thesis by (rule zero)
    next
      case less
      then have z: "\<not> delta > 0" by simp
      from unf have "resizeCpusWithDevices rt ta next current free delta st =
           (case hintedToFree rt hs current delta of
              None \<Rightarrow> Some Panic
            | Some (currentToFreeForSure, currentToFreeMaybe) \<Rightarrow>
                (case next currentToFreeMaybe free (delta + Size currentToFreeForSure) st2 of
                   None \<Rightarrow> None
                 | Some Panic \<Rightarrow> Some Panic
                 | Some (Return unused freeFromMaybe err st3) \<Rightarrow>
                     Some (Return free
                             (fillFromMaybe delta (UnsortedList rt freeFromMaybe)
                                currentToFreeForSure)
                             err st3)))"
        by (simp only: False z less if_False if_True)
      with assms have "(case hintedToFree rt hs current delta of
              None \<Rightarrow> Some Panic
            | Some (currentToFreeForSure, currentToFreeMaybe) \<Rightarrow>
                (case next currentToFreeMaybe free (delta + Size currentToFreeForSure) st2 of
                   None \<Rightarrow> None
                 | Some Panic \<Rightarrow> Some Panic
                 | Some (Return unused freeFromMaybe err st3) \<Rightarrow>
                     Some (Return free
                             (fillFromMaybe delta (UnsortedList rt freeFromMaybe)
                                currentToFreeForSure)
                             err st3))) = Some (Return a r e st')"
        by (simp only:)
      then show ?thesis by (rule WithDevices_shrink) (rule shrink [OF less])
    qed
  qed
qed

lemma within_WithDevices:
  assumes "goodRuntime rt" and "within next"
  shows "within (resizeCpusWithDevices rt ta next)"
proof (unfold within_def, intro allI impI)
  fix current free delta st a r e st'
  assume fin: "finite current" "finite free"
    and res: "resizeCpusWithDevices rt ta next current free delta st = Some (Return a r e st')"
  from res show "a \<subseteq> free \<and> r \<subseteq> current"
  proof (cases rule: WithDevices_cases)
    case (forward st2 free')
    from forward(1) fin have "finite free'" by (auto intro: finite_subset)
    from withinD [OF assms(2) fin(1) this forward(2)] forward(1) show ?thesis by blast
  next
    case (shrink hs forSure maybe st2 unused ffm)
    from hintedToFree_sets [OF assms(1) fin(1) shrink(2)]
    have s: "forSure \<subseteq> current" "maybe \<subseteq> current" by simp_all
    with fin have fm: "finite maybe" by (auto intro: finite_subset)
    from withinD [OF assms(2) fm fin(2) shrink(3)] have sub: "ffm \<subseteq> maybe" by simp
    with fm have "finite ffm" by (auto intro: finite_subset)
    then have ul: "set (UnsortedList rt ffm) = ffm" using assms(1) by (simp add: goodRuntime_def)
    from fillFromMaybe_sets [of forSure delta "UnsortedList rt ffm"] ul
    have "r \<subseteq> forSure \<union> ffm" using shrink(5) by simp
    with s sub have "r \<subseteq> current" by blast
    with shrink(4) show ?thesis by simp
  next
    case zero
    then show ?thesis by simp
  qed
qed

lemma sized_WithDevices:
  assumes "goodRuntime rt" and "within next" and "sized next"
  shows "sized (resizeCpusWithDevices rt ta next)"
proof (unfold sized_def, intro allI impI)
  fix current free delta st a r st'
  assume fin: "finite current" "finite free"
    and res: "resizeCpusWithDevices rt ta next current free delta st = Some (Return a r None st')"
  from res show "(delta > 0 \<longrightarrow> delta \<le> Size a) \<and> (delta < 0 \<longrightarrow> neg delta \<le> Size r)"
  proof (cases rule: WithDevices_cases)
    case (forward st2 free')
    from forward(1) fin have "finite free'" by (auto intro: finite_subset)
    from sizedD [OF assms(3) fin(1) this forward(2)] show ?thesis .
  next
    case (shrink hs forSure maybe st2 unused ffm)
    from hintedToFree_sets [OF assms(1) fin(1) shrink(2)]
    have s: "forSure \<subseteq> current" "maybe \<subseteq> current" "forSure \<inter> maybe = {}" by simp_all
    with fin have fm: "finite maybe" and fs: "finite forSure" by (auto intro: finite_subset)
    from withinD [OF assms(2) fm fin(2) shrink(3)] have sub: "ffm \<subseteq> maybe" by simp
    with fm have ff: "finite ffm" by (auto intro: finite_subset)
    then have ul: "set (UnsortedList rt ffm) = ffm" using assms(1) by (simp add: goodRuntime_def)
    from fillFromMaybe_size [OF fs, of delta "UnsortedList rt ffm"]
    have "neg delta \<le> Size r"
    proof
      assume "neg delta \<le> Size (fillFromMaybe delta (UnsortedList rt ffm) forSure)"
      with shrink(5) show ?thesis by simp
    next
      assume eq: "fillFromMaybe delta (UnsortedList rt ffm) forSure = forSure \<union> set (UnsortedList rt ffm)"
      with shrink(5) ul have r: "r = forSure \<union> ffm" by simp
      from s sub have "forSure \<inter> ffm = {}" by blast
      with fs ff r have sz: "Size r = Size forSure + Size ffm"
        by (simp add: Size_def card_Un_disjoint)
      show ?thesis
      proof (cases "delta + Size forSure < 0")
        case True
        with sizedD [OF assms(3) fm fin(2) shrink(3)] have "neg (delta + Size forSure) \<le> Size ffm" by simp
        with sz True show ?thesis by (auto simp: neg_def Size_def split: if_splits)
      next
        case False
        with sz show ?thesis by (auto simp: neg_def Size_def)
      qed
    qed
    with shrink(1) show ?thesis by simp
  next
    case zero
    then show ?thesis by simp
  qed
qed

subsection \<open>The dynamic device hints\<close>

lemma List_Cons_member: "finite s \<Longrightarrow> List s = x # xs \<Longrightarrow> x \<in> s"
  unfolding List_def by (metis list.set_intros(1) set_sorted_list_of_set)

lemma dynamicLoop_result:
  assumes "dynamicLoop ta cb next delta addFrom removeFrom addedCpus current free st = Some y"
  shows "addWithin next \<longrightarrow> sized next \<longrightarrow> finite current \<longrightarrow> finite free \<longrightarrow> finite addFrom \<longrightarrow>
   finite addedCpus \<longrightarrow> addFrom \<subseteq> free0 \<longrightarrow> addedCpus \<subseteq> free0 \<longrightarrow> free \<subseteq> free0 \<longrightarrow>
   (\<forall>a r e st'. y = Return a r e st' \<longrightarrow> a \<subseteq> free0 \<and> (e = None \<longrightarrow> delta \<le> Size a))"
  using assms
proof (rule dynamicLoop.raw_induct [rotated, where P = "\<lambda>ta cb next delta addFrom removeFrom addedCpus current free st y.
   addWithin next \<longrightarrow> sized next \<longrightarrow> finite current \<longrightarrow> finite free \<longrightarrow> finite addFrom \<longrightarrow>
   finite addedCpus \<longrightarrow> addFrom \<subseteq> free0 \<longrightarrow> addedCpus \<subseteq> free0 \<longrightarrow> free \<subseteq> free0 \<longrightarrow>
   (\<forall>a r e st'. y = Return a r e st' \<longrightarrow> a \<subseteq> free0 \<and> (e = None \<longrightarrow> delta \<le> Size a))"], goal_cases)
  case (1 loop ta cb nx delta addFrom removeFrom addedCpus current free st y)
  show ?case
  proof (intro impI allI)
    fix a r e st'
    assume aw: "addWithin nx" and sz: "sized nx" and fin: "finite current" "finite free"
      "finite addFrom" "finite addedCpus"
      and sub: "addFrom \<subseteq> free0" "addedCpus \<subseteq> free0" "free \<subseteq> free0"
      and y: "y = Return a r e st'"
    show "a \<subseteq> free0 \<and> (e = None \<longrightarrow> delta \<le> Size a)"
    proof (cases "List addFrom")
      case Nil
      with 1(2) y show ?thesis by simp
    next
      case (Cons addedCpu others)
      from List_Cons_member [OF fin(3) Cons] have mem: "addedCpu \<in> addFrom" .
      let ?added = "addedCpus \<union> {addedCpu}"
      let ?cur = "current \<union> {addedCpu}"
      let ?free = "free - (current \<union> {addedCpu})"
      show ?thesis
      proof (cases "Size ?added \<ge> delta")
        case True
        with 1(2) Cons y have a: "a = ?added \<union> addFrom" "e = None" by simp_all
        from fin have "finite (?added \<union> addFrom)" by simp
        from this have "Size ?added \<le> Size (?added \<union> addFrom)" by (rule Size_mono) blast
        with True a have "delta \<le> Size a" by simp
        with a sub mem show ?thesis by auto
      next
        case False
        show ?thesis
        proof (cases "nx ?cur ?free 1 (deviceUpdate ta cb ?cur st)")
          case None
          with 1(2) Cons False show ?thesis by simp
        next
          case (Some oc)
          show ?thesis
          proof (cases oc)
            case Panic
            with 1(2) Cons False Some y show ?thesis by simp
          next
            case (Return addFrom' removeFrom' err st1)
            from fin have fc: "finite ?cur" "finite ?free" by simp_all
            from aw fc Some Return have af: "addFrom' \<subseteq> ?free"
              unfolding addWithin_def by blast
            show ?thesis
            proof (cases "err \<noteq> None \<or> Size addFrom' < 1")
              case True
              with 1(2) Cons False Some Return y
              have a: "a = ?added" "e = err" by simp_all
              have "e \<noteq> None"
              proof
                assume "e = None"
                with a True have "Size addFrom' < 1" by simp
                moreover from sizedD [OF sz fc] Some Return a \<open>e = None\<close>
                have "1 \<le> Size addFrom'" by simp
                ultimately show False by simp
              qed
              with a sub mem show ?thesis by auto
            next
              case False2: False
              with 1(2) Cons False Some Return
              have rec: "loop ta cb nx delta addFrom' removeFrom' ?added ?cur ?free st1 = Some y"
                by simp
              from af fc have f1: "finite addFrom'" by (auto intro: finite_subset)
              from af sub have s1: "addFrom' \<subseteq> free0" by blast
              from sub mem have s2: "?added \<subseteq> free0" and s3: "?free \<subseteq> free0" by auto
              from fin have f2: "finite ?added" by simp
              note ih = 1(1) [OF rec, rule_format]
              show ?thesis by (rule ih [OF aw sz fc(1) fc(2) f1 f2 s1 s2 s3 y])
            qed
          qed
        qed
      qed
    qed
  qed
qed

lemma WithDynamicDeviceHints_cases [consumes 1, case_names unset release first loop]:
  assumes "resizeCpusWithDynamicDeviceHints ta next current free delta st = Some (Return a r e st')"
  obtains (unset) "deviceUpdateOnEveryCpu (options ta) = None"
      "next current free delta st = Some (Return a r e st')"
  | (release) cb where "deviceUpdateOnEveryCpu (options ta) = Some cb" "delta \<le> 0"
      "next current free delta (deviceUpdate ta cb current st) = Some (Return a r e st')"
  | (first) cb where "deviceUpdateOnEveryCpu (options ta) = Some cb" "delta > 0"
      "next current free delta (deviceUpdate ta cb current st) = Some (Return a r e st')"
      "e \<noteq> None \<or> Size a < delta"
  | (loop) cb addFrom removeFrom st1 where "deviceUpdateOnEveryCpu (options ta) = Some cb" "delta > 0"
      "next current free delta (deviceUpdate ta cb current st) = Some (Return addFrom removeFrom None st1)"
      "\<not> Size addFrom < delta"
      "dynamicLoop ta cb next delta addFrom removeFrom {} current free st1 = Some (Return a r e st')"
proof (cases "deviceUpdateOnEveryCpu (options ta)")
  case None
  with assms have "next current free delta st = Some (Return a r e st')"
    by (simp add: resizeCpusWithDynamicDeviceHints_def)
  with None show ?thesis by (rule unset)
next
  case (Some cb)
  show ?thesis
  proof (cases "delta \<le> 0")
    case True
    with assms Some have "next current free delta (deviceUpdate ta cb current st) = Some (Return a r e st')"
      by (simp add: resizeCpusWithDynamicDeviceHints_def)
    with Some True show ?thesis by (rule release)
  next
    case False
    then have pos: "delta > 0" by simp
    show ?thesis
    proof (cases "next current free delta (deviceUpdate ta cb current st)")
      case None
      with assms Some False show ?thesis by (simp add: resizeCpusWithDynamicDeviceHints_def)
    next
      case oc: (Some oc)
      show ?thesis
      proof (cases oc)
        case Panic
        with assms Some False oc show ?thesis by (simp add: resizeCpusWithDynamicDeviceHints_def)
      next
        case (Return addFrom removeFrom err st1)
        show ?thesis
        proof (cases "err \<noteq> None \<or> Size addFrom < delta")
          case True
          with assms Some False oc Return
          have eq: "addFrom = a" "removeFrom = r" "err = e" "st1 = st'"
            by (simp_all add: resizeCpusWithDynamicDeviceHints_def)
          from oc Return eq have "next current free delta (deviceUpdate ta cb current st) = Some (Return a r e st')"
            by simp
          moreover from True eq have "e \<noteq> None \<or> Size a < delta" by simp
          ultimately show ?thesis using Some pos by (rule first [rotated 2])
        next
          case nf: False
          with assms Some False oc Return
          have "dynamicLoop ta cb next delta addFrom removeFrom {} current free st1 = Some (Return a r e st')"
            by (simp add: resizeCpusWithDynamicDeviceHints_def)
          moreover from nf oc Return
          have "next current free delta (deviceUpdate ta cb current st) = Some (Return addFrom removeFrom None st1)"
            "\<not> Size addFrom < delta" by simp_all
          ultimately show ?thesis using Some pos loop by blast
        qed
      qed
    qed
  qed
qed

lemma addWithin_sized_WithDynamicDeviceHints:
  assumes "addWithin next" and "sized next"
  shows "addWithin (resizeCpusWithDynamicDeviceHints ta next)
       \<and> sized (resizeCpusWithDynamicDeviceHints ta next)"
proof -
  have main: "a \<subseteq> free \<and> (e = None \<longrightarrow> (delta > 0 \<longrightarrow> delta \<le> Size a) \<and> (delta < 0 \<longrightarrow> neg delta \<le> Size r))"
    if fin: "finite current" "finite free"
      and res: "resizeCpusWithDynamicDeviceHints ta next current free delta st = Some (Return a r e st')"
    for current free delta st a r e st'
    using res
  proof (cases rule: WithDynamicDeviceHints_cases)
    case unset
    from assms(1) fin unset(2) have "a \<subseteq> free" unfolding addWithin_def by blast
    moreover have "(delta > 0 \<longrightarrow> delta \<le> Size a) \<and> (delta < 0 \<longrightarrow> neg delta \<le> Size r)" if "e = None"
      using sizedD [OF assms(2) fin] unset(2) that by blast
    ultimately show ?thesis by blast
  next
    case (release cb)
    from assms(1) fin release(3) have "a \<subseteq> free" unfolding addWithin_def by blast
    moreover have "(delta > 0 \<longrightarrow> delta \<le> Size a) \<and> (delta < 0 \<longrightarrow> neg delta \<le> Size r)" if "e = None"
      using sizedD [OF assms(2) fin] release(3) that by blast
    ultimately show ?thesis by blast
  next
    case (first cb)
    from assms(1) fin first(3) have "a \<subseteq> free" unfolding addWithin_def by blast
    moreover have "(delta > 0 \<longrightarrow> delta \<le> Size a) \<and> (delta < 0 \<longrightarrow> neg delta \<le> Size r)" if "e = None"
      using sizedD [OF assms(2) fin] first(3) that by blast
    ultimately show ?thesis by blast
  next
    case (loop cb addFrom removeFrom st1)
    from assms(1) fin loop(3) have af: "addFrom \<subseteq> free" unfolding addWithin_def by blast
    with fin have "finite addFrom" by (auto intro: finite_subset)
    from dynamicLoop_result [OF loop(5), of free, rule_format, OF assms fin this _ af _ _ refl]
    have "a \<subseteq> free \<and> (e = None \<longrightarrow> delta \<le> Size a)" by simp
    with loop(2) show ?thesis by simp
  qed
  show ?thesis
    unfolding addWithin_def sized_def using main by blast
qed

subsection \<open>The chain of ResizeCpus\<close>

lemma returned_Some:
  assumes "returned x = Some (a, r, e)"
  obtains st' where "x = Some (Return a r e st')"
proof (cases x)
  case None
  with assms show ?thesis by simp
next
  case (Some oc)
  with assms that show ?thesis by (cases oc) simp_all
qed

lemma goodRuntime_goRuntime: "goodRuntime goRuntime"
  by (simp add: goodRuntime_def goRuntime_def List_def)

lemma within_tail:
  "within (nextCpuResizer rt ta [OneAtATime, MaxLocalSet, Now])"
  by (simp add: callResizer_def within_OneAtATime within_MaxLocalSet within_Now)

lemma sized_tail:
  "sized (nextCpuResizer rt ta [OneAtATime, MaxLocalSet, Now])"
  by (simp add: callResizer_def sized_OneAtATime within_MaxLocalSet within_Now sized_MaxLocalSet_Now)

lemma within_devices_tail:
  "goodRuntime rt \<Longrightarrow> within (nextCpuResizer rt ta [WithDevices, OneAtATime, MaxLocalSet, Now])"
  using within_WithDevices [OF _ within_tail] by (simp add: callResizer_def)

lemma sized_devices_tail:
  "goodRuntime rt \<Longrightarrow> sized (nextCpuResizer rt ta [WithDevices, OneAtATime, MaxLocalSet, Now])"
  using sized_WithDevices [OF _ within_tail sized_tail] by (simp add: callResizer_def)

lemma addWithin_ResizeCpus: "goodRuntime rt \<Longrightarrow> addWithin (ResizeCpus rt ta)"
proof -
  assume g: "goodRuntime rt"
  let ?d = "nextCpuResizer rt ta [WithDevices, OneAtATime, MaxLocalSet, Now]"
  from addWithin_sized_WithDynamicDeviceHints [OF within_addWithin [OF within_devices_tail [OF g]]
      sized_devices_tail [OF g]]
  have "addWithin (resizeCpusWithDynamicDeviceHints ta ?d)" by simp
  then have "addWithin (resizeCpusOnlyIfNecessary (resizeCpusWithDynamicDeviceHints ta ?d))"
    by (rule addWithin_OnlyIfNecessary)
  moreover have "ResizeCpus rt ta = resizeCpusOnlyIfNecessary (resizeCpusWithDynamicDeviceHints ta ?d)"
    by (intro ext) (simp add: ResizeCpus_def resizers_def callResizer_def)
  ultimately show ?thesis by simp
qed

lemma sized_ResizeCpus: "goodRuntime rt \<Longrightarrow> sized (ResizeCpus rt ta)"
proof -
  assume g: "goodRuntime rt"
  let ?d = "nextCpuResizer rt ta [WithDevices, OneAtATime, MaxLocalSet, Now]"
  from addWithin_sized_WithDynamicDeviceHints [OF within_addWithin [OF within_devices_tail [OF g]]
      sized_devices_tail [OF g]]
  have "sized (resizeCpusWithDynamicDeviceHints ta ?d)" by simp
  then have "sized (resizeCpusOnlyIfNecessary (resizeCpusWithDynamicDeviceHints ta ?d))"
    by (rule sized_OnlyIfNecessary)
  moreover have "ResizeCpus rt ta = resizeCpusOnlyIfNecessary (resizeCpusWithDynamicDeviceHints ta ?d)"
    by (intro ext) (simp add: ResizeCpus_def resizers_def callResizer_def)
  ultimately show ?thesis by simp
qed

text \<open>
  The sizes of the returned sets. For finite current and free cpus, a call of ResizeCpus
  that returns without error returns at least delta cpus to add from when delta > 0, and
  at least -delta cpus to remove from when delta < 0 and -delta does not wrap.
\<close>

lemma ResizeCpus_size_bound:
  assumes "goodRuntime rt" and "finite current" and "finite free"
    and "returned (ResizeCpus rt ta current free delta st) = Some (addFrom, removeFrom, None)"
  shows "(delta > 0 \<longrightarrow> delta \<le> Size addFrom)
       \<and> (- (2 ^ 63) < delta \<and> delta < 0 \<longrightarrow> - delta \<le> Size removeFrom)"
proof -
  from assms(4) obtain st' where
    "ResizeCpus rt ta current free delta st = Some (Return addFrom removeFrom None st')"
    by (rule returned_Some)
  from sizedD [OF sized_ResizeCpus [OF assms(1)] assms(2,3) this]
  show ?thesis by (auto simp: neg_def)
qed

lemma ResizeCpus_size_bound_example:
  "goodRuntime goRuntime \<and> finite {0, 1, 4 :: int} \<and> finite {2, 3, 5, 6, 7 :: int}
   \<and> returned (ResizeCpus goRuntime \<lparr>options = plainOptions, root = twoCaches\<rparr>
        {0, 1, 4} {2, 3, 5, 6, 7} (- 2) noState) = Some ({}, {1, 4}, None)
   \<and> - (2 ^ 63) < (- 2 :: int) \<and> (- 2 :: int) < 0 \<and> - (- 2) \<le> Size {1, 4}
   \<and> returned (ResizeCpus goRuntime \<lparr>options = plainOptions, root = twoCaches\<rparr>
        {0, 1, 4} {2, 3, 5, 6, 7} 2 noState) = Some ({2, 3}, {}, None)
   \<and> 2 \<le> Size {2, 3}"
proof -
  have r1: "returned (ResizeCpus goRuntime \<lparr>options = plainOptions, root = twoCaches\<rparr>
        {0, 1, 4} {2, 3, 5, 6, 7} (- 2) noState) = Some ({}, {1, 4}, None)"
    by code_simp
  have r2: "returned (ResizeCpus goRuntime \<lparr>options = plainOptions, root = twoCaches\<rparr>
        {0, 1, 4} {2, 3, 5, 6, 7} 2 noState) = Some ({2, 3}, {}, None)"
    by code_simp
  have f: "finite {0, 1, 4 :: int}" "finite {2, 3, 5, 6, 7 :: int}" by simp_all
  from ResizeCpus_size_bound [OF goodRuntime_goRuntime f r1]
    ResizeCpus_size_bound [OF goodRuntime_goRuntime f r2]
  show ?thesis using r1 r2 goodRuntime_goRuntime by simp
qed

lemma dynamicLoop_first_round:
  assumes "dynamicLoop ta cb next delta addFrom removeFrom {} current free st = Some (Return a r e st')"
    and "delta \<le> 1"
  shows "r = removeFrom"
proof (cases "List addFrom")
  case Nil
  with assms(1) show ?thesis by (subst (asm) dynamicLoop.simps) simp
next
  case (Cons addedCpu others)
  have "Size ({} \<union> {addedCpu}) = 1" by (simp add: Size_def)
  with assms(2) have "delta \<le> Size ({} \<union> {addedCpu})" by simp
  with assms(1) Cons show ?thesis by (subst (asm) dynamicLoop.simps) simp
qed

lemma removeWithin_WithDynamicDeviceHints:
  assumes "within next" and "finite current" and "finite free"
    and "resizeCpusWithDynamicDeviceHints ta next current free delta st = Some (Return a r e st')"
    and "deviceUpdateOnEveryCpu (options ta) = None \<or> delta \<le> 1"
  shows "r \<subseteq> current"
  using assms(4)
proof (cases rule: WithDynamicDeviceHints_cases)
  case unset
  from withinD [OF assms(1,2,3) unset(2)] show ?thesis by simp
next
  case (release cb)
  from withinD [OF assms(1,2,3) release(3)] show ?thesis by simp
next
  case (first cb)
  from withinD [OF assms(1,2,3) first(3)] show ?thesis by simp
next
  case (loop cb addFrom removeFrom st1)
  with assms(5) have "delta \<le> 1" by simp
  from dynamicLoop_first_round [OF loop(5) this] have "r = removeFrom" .
  with withinD [OF assms(1,2,3) loop(3)] show ?thesis by simp
qed

lemma removeWithin_ResizeCpus:
  assumes "goodRuntime rt" and "finite current" and "finite free"
    and "ResizeCpus rt ta current free delta st = Some (Return a r e st')"
    and "deviceUpdateOnEveryCpu (options ta) = None \<or> delta \<le> 1"
  shows "r \<subseteq> current"
proof -
  let ?d = "nextCpuResizer rt ta [WithDevices, OneAtATime, MaxLocalSet, Now]"
  let ?dyn = "resizeCpusWithDynamicDeviceHints ta ?d"
  have eq: "ResizeCpus rt ta current free delta st = resizeCpusOnlyIfNecessary ?dyn current free delta st"
    by (simp add: ResizeCpus_def resizers_def callResizer_def)
  show ?thesis
  proof (cases "?dyn current free delta st = Some (Return a r e st')")
    case True
    from removeWithin_WithDynamicDeviceHints [OF within_devices_tail [OF assms(1)] assms(2,3) True assms(5)]
    show ?thesis .
  next
    case False
    with assms(4) eq show ?thesis
      by (auto simp: resizeCpusOnlyIfNecessary_def split: if_splits)
  qed
qed

text \<open>
  Where the returned sets come from. For finite current and free cpus, every call of
  ResizeCpus that returns, with or without error, returns cpus to add from among the free
  cpus. The cpus to remove from are among the current cpus when the callback
  deviceUpdateOnEveryCpu is unset or delta is at most 1. When moreover current and free
  cpus are disjoint, the cpus to add from are disjoint from the current cpus and the cpus
  to remove from are disjoint from the free cpus.
\<close>

lemma ResizeCpus_containment:
  assumes "goodRuntime rt" and "finite current" and "finite free"
    and "returned (ResizeCpus rt ta current free delta st) = Some (addFrom, removeFrom, err)"
  shows "addFrom \<subseteq> free
       \<and> (deviceUpdateOnEveryCpu (options ta) = None \<or> delta \<le> 1 \<longrightarrow> removeFrom \<subseteq> current)
       \<and> (current \<inter> free = {} \<longrightarrow> addFrom \<inter> current = {})
       \<and> (current \<inter> free = {} \<and> (deviceUpdateOnEveryCpu (options ta) = None \<or> delta \<le> 1)
            \<longrightarrow> removeFrom \<inter> free = {})"
proof -
  from assms(4) obtain st' where
    res: "ResizeCpus rt ta current free delta st = Some (Return addFrom removeFrom err st')"
    by (rule returned_Some)
  from addWithin_ResizeCpus [OF assms(1)] assms(2,3) res have a: "addFrom \<subseteq> free"
    unfolding addWithin_def by blast
  have r: "removeFrom \<subseteq> current" if "deviceUpdateOnEveryCpu (options ta) = None \<or> delta \<le> 1"
    using removeWithin_ResizeCpus [OF assms(1,2,3) res that] .
  from a r show ?thesis by blast
qed

lemma ResizeCpus_containment_example:
  "goodRuntime goRuntime \<and> finite {0, 1, 4 :: int} \<and> finite {2, 3, 5, 6, 7 :: int}
   \<and> returned (ResizeCpus goRuntime \<lparr>options = plainOptions, root = twoCaches\<rparr>
        {0, 1, 4} {2, 3, 5, 6, 7} 2 noState) = Some ({2, 3}, {}, None)
   \<and> deviceUpdateOnEveryCpu (options \<lparr>options = plainOptions, root = twoCaches\<rparr>) = None
   \<and> {0, 1, 4} \<inter> {2, 3, 5, 6, 7 :: int} = {}
   \<and> {2, 3} \<subseteq> {2, 3, 5, 6, 7 :: int} \<and> {} \<subseteq> {0, 1, 4 :: int}
   \<and> {2, 3} \<inter> {0, 1, 4 :: int} = {} \<and> {} \<inter> {2, 3, 5, 6, 7 :: int} = {}"
proof -
  have r: "returned (ResizeCpus goRuntime \<lparr>options = plainOptions, root = twoCaches\<rparr>
        {0, 1, 4} {2, 3, 5, 6, 7} 2 noState) = Some ({2, 3}, {}, None)"
    by code_simp
  have f: "finite {0, 1, 4 :: int}" "finite {2, 3, 5, 6, 7 :: int}" by simp_all
  from ResizeCpus_containment [OF goodRuntime_goRuntime f r]
  show ?thesis using r goodRuntime_goRuntime by (simp add: plainOptions_def)
qed

text \<open>
  C1. A call of ResizeCpus with delta > 0 and fewer than delta free cpus fails in the
  first stage and returns (free, {}). When the attributed slice of resizeCpusMaxLocalSet
  is empty, that stage fails and returns the pair (freeCpus, currentCpus) of its own
  arguments: the second set is its currentCpus.
\<close>

theorem insufficient_free_returns:
  "(delta > 0 \<and> Size free < delta \<longrightarrow>
      ResizeCpus rt ta current free delta st = Some (Return free {} (Some ErrNotEnoughFreeCpus) st))
   \<and> (ToAttributedSlice (root ta) currentCpus' freeCpus' (Some (localFilter delta')) = [] \<longrightarrow>
      resizeCpusMaxLocalSet ta successor currentCpus' freeCpus' delta' st
        = Some (Return freeCpus' currentCpus' (Some ErrNotEnoughFree) st))"
  by (auto simp: ResizeCpus_def resizers_def callResizer_def resizeCpusOnlyIfNecessary_def
      resizeCpusMaxLocalSet_def sortSlice_def)

theorem insufficient_free_returns_witness:
  "(3 :: int) > 0 \<and> Size {5, 6} < 3
   \<and> returned (ResizeCpus goRuntime \<lparr>options = plainOptions, root = leafOnly\<rparr> {0} {5, 6} 3 noState)
       = Some ({5, 6}, {}, Some ErrNotEnoughFreeCpus)
   \<and> ToAttributedSlice (root \<lparr>options = plainOptions, root = leafOnly\<rparr>) {0} {5, 6, 7}
        (Some (localFilter 2)) = []
   \<and> returned (resizeCpusMaxLocalSet \<lparr>options = plainOptions, root = leafOnly\<rparr>
        (resizeCpusNow (nextCpuResizer goRuntime \<lparr>options = plainOptions, root = leafOnly\<rparr> []))
        {0} {5, 6, 7} 2 noState) = Some ({5, 6, 7}, {0}, Some ErrNotEnoughFree)"
proof -
  have s: "Size {5, 6} < 3" by (simp add: Size_def)
  have e: "ToAttributedSlice (root \<lparr>options = plainOptions, root = leafOnly\<rparr>) {0} {5, 6, 7}
        (Some (localFilter 2)) = []"
    by code_simp
  from insufficient_free_returns [where delta = 3 and free = "{5, 6}" and rt = goRuntime
      and ta = "\<lparr>options = plainOptions, root = leafOnly\<rparr>" and current = "{0}" and st = noState
      and currentCpus' = "{0}" and freeCpus' = "{5, 6, 7}" and delta' = 2
      and successor = "resizeCpusNow (nextCpuResizer goRuntime \<lparr>options = plainOptions, root = leafOnly\<rparr> [])"]
  show ?thesis using s e by simp
qed

theorem insufficient_local_counterexample:
  "returned (ResizeCpus goRuntime \<lparr>options = plainOptions, root = leafOnly\<rparr> {0} {5, 6, 7} 2 noState)
     = Some ({5, 6, 7}, {0}, Some ErrNotEnoughFree)
   \<and> returned (ResizeCpus goRuntime \<lparr>options = plainOptions, root = leafOnly\<rparr> {0} {5, 6, 7} 2 noState)
     \<noteq> Some ({5, 6, 7}, {}, Some ErrNotEnoughFree)"
  by code_simp

subsection \<open>The internal error of nextCpuResizer\<close>

lemma neverOutOfResizersI:
  "(\<And>current free delta st a r e st'. next current free delta st = Some (Return a r e st') \<Longrightarrow>
      e \<noteq> Some ErrNoResizerLeft) \<Longrightarrow> neverOutOfResizers next"
  unfolding neverOutOfResizers_def by blast

lemma neverOutOfResizersD:
  "neverOutOfResizers next \<Longrightarrow> next current free delta st = Some (Return a r e st') \<Longrightarrow>
   e \<noteq> Some ErrNoResizerLeft"
  unfolding neverOutOfResizers_def by blast

lemma never_Now: "neverOutOfResizers (resizeCpusNow next)"
  by (rule neverOutOfResizersI) (simp add: resizeCpusNow_def)

lemma never_MaxLocalSet:
  assumes "neverOutOfResizers next"
  shows "neverOutOfResizers (resizeCpusMaxLocalSet ta next)"
proof (rule neverOutOfResizersI)
  fix current free delta st a r e st'
  assume "resizeCpusMaxLocalSet ta next current free delta st = Some (Return a r e st')"
  from MaxLocalSet_best [OF this] show "e \<noteq> Some ErrNoResizerLeft"
  proof (elim disjE exE conjE)
    assume "e = Some ErrNotEnoughFree"
    then show ?thesis by simp
  next
    fix best
    assume "next (currentCpus best) (freeCpus best) delta st = Some (Return a r e st')"
    then show ?thesis by (rule neverOutOfResizersD [OF assms])
  qed
qed

lemma never_addOneAtATime:
  assumes "neverOutOfResizers next"
  shows "addOneAtATime next asuper rsuper rounds n addFrom current free st = Some (Return a r e st') \<Longrightarrow>
    e \<noteq> Some ErrNoResizerLeft"
proof (induction rounds arbitrary: n addFrom current free st)
  case 0
  then show ?case by simp
next
  case (Suc rounds)
  show ?case
  proof (cases "next current free 1 st")
    case None
    with Suc.prems show ?thesis by simp
  next
    case (Some oc)
    show ?thesis
    proof (cases oc)
      case Panic
      with Some Suc.prems show ?thesis by simp
    next
      case (Return single unused err st1)
      from neverOutOfResizersD [OF assms] Some Return have ne: "err \<noteq> Some ErrNoResizerLeft" by blast
      show ?thesis
      proof (cases "err \<noteq> None \<or> Size single \<noteq> 1 \<or> Size (addFrom \<union> single) \<noteq> int n + 1")
        case True
        with Some Return Suc.prems ne show ?thesis by (auto split: if_splits)
      next
        case False
        with Some Return Suc.prems
        have "addOneAtATime next asuper rsuper rounds (n + 1) (addFrom \<union> single)
                 (current \<union> single) (free - single) st1 = Some (Return a r e st')"
          by simp
        then show ?thesis by (rule Suc.IH)
      qed
    qed
  qed
qed

lemma never_removeOneAtATime:
  assumes "neverOutOfResizers next"
  shows "removeOneAtATime next rounds n removeFrom current free st = Some (Return a r e st') \<Longrightarrow>
    e \<noteq> Some ErrNoResizerLeft"
proof (induction rounds arbitrary: n removeFrom current free st)
  case 0
  then show ?case by simp
next
  case (Suc rounds)
  show ?case
  proof (cases "next current free (- 1) st")
    case None
    with Suc.prems show ?thesis by simp
  next
    case (Some oc)
    show ?thesis
    proof (cases oc)
      case Panic
      with Some Suc.prems show ?thesis by simp
    next
      case (Return unused single err st1)
      from neverOutOfResizersD [OF assms] Some Return have ne: "err \<noteq> Some ErrNoResizerLeft" by blast
      show ?thesis
      proof (cases "err \<noteq> None \<or> Size single \<noteq> 1 \<or> Size (removeFrom \<union> single) \<noteq> int n + 1")
        case True
        with Some Return Suc.prems ne show ?thesis by (auto split: if_splits)
      next
        case False
        with Some Return Suc.prems
        have "removeOneAtATime next rounds (n + 1) (removeFrom \<union> single)
                 (current - single) (free \<union> single) st1 = Some (Return a r e st')"
          by simp
        then show ?thesis by (rule Suc.IH)
      qed
    qed
  qed
qed

lemma never_OneAtATime:
  assumes "neverOutOfResizers next"
  shows "neverOutOfResizers (resizeCpusOneAtATime ta next)"
proof (rule neverOutOfResizersI)
  fix current free delta st a r e st'
  assume res: "resizeCpusOneAtATime ta next current free delta st = Some (Return a r e st')"
  show "e \<noteq> Some ErrNoResizerLeft"
  proof (cases "delta > 0")
    case False
    with res have "removeOneAtATime next (nat (neg delta)) 0 {} current free st = Some (Return a r e st')"
      by (simp add: resizeCpusOneAtATime_def)
    then show ?thesis by (rule never_removeOneAtATime [OF assms])
  next
    case True
    show ?thesis
    proof (cases "next current free delta st")
      case None
      with True res show ?thesis by (simp add: resizeCpusOneAtATime_def)
    next
      case (Some oc)
      show ?thesis
      proof (cases oc)
        case Panic
        with Some True res show ?thesis by (simp add: resizeCpusOneAtATime_def)
      next
        case (Return asuper rsuper err st1)
        from neverOutOfResizersD [OF assms] Some Return have ne: "err \<noteq> Some ErrNoResizerLeft" by blast
        show ?thesis
        proof (cases "\<not> preferSpreadOnPhysicalCores (options ta) \<or> Size asuper = delta")
          case True
          with Some Return \<open>delta > 0\<close> res ne show ?thesis
            by (auto simp: resizeCpusOneAtATime_def)
        next
          case False
          with Some Return \<open>delta > 0\<close> res
          have "addOneAtATime next asuper rsuper (nat delta) 0 {} current free st1 = Some (Return a r e st')"
            by (auto simp: resizeCpusOneAtATime_def)
          then show ?thesis by (rule never_addOneAtATime [OF assms])
        qed
      qed
    qed
  qed
qed

lemma never_WithDevices:
  assumes "neverOutOfResizers next"
  shows "neverOutOfResizers (resizeCpusWithDevices rt ta next)"
proof (rule neverOutOfResizersI)
  fix current free delta st a r e st'
  assume "resizeCpusWithDevices rt ta next current free delta st = Some (Return a r e st')"
  then show "e \<noteq> Some ErrNoResizerLeft"
  proof (cases rule: WithDevices_cases)
    case (forward st2 free')
    from neverOutOfResizersD [OF assms forward(2)] show ?thesis .
  next
    case (shrink hs forSure maybe st2 unused ffm)
    from neverOutOfResizersD [OF assms shrink(3)] show ?thesis .
  next
    case zero
    then show ?thesis by simp
  qed
qed

lemma never_dynamicLoop:
  assumes "dynamicLoop ta cb next delta addFrom removeFrom addedCpus current free st = Some y"
  shows "neverOutOfResizers next \<longrightarrow> (\<forall>a r e st'. y = Return a r e st' \<longrightarrow> e \<noteq> Some ErrNoResizerLeft)"
  using assms
proof (rule dynamicLoop.raw_induct [rotated, where P = "\<lambda>ta cb next delta addFrom removeFrom addedCpus current free st y.
   neverOutOfResizers next \<longrightarrow> (\<forall>a r e st'. y = Return a r e st' \<longrightarrow> e \<noteq> Some ErrNoResizerLeft)"], goal_cases)
  case (1 loop ta cb nx delta addFrom removeFrom addedCpus current free st y)
  show ?case
  proof (intro impI allI)
    fix a r e st'
    assume nv: "neverOutOfResizers nx" and y: "y = Return a r e st'"
    show "e \<noteq> Some ErrNoResizerLeft"
    proof (cases "List addFrom")
      case Nil
      with 1(2) y show ?thesis by simp
    next
      case (Cons addedCpu others)
      let ?added = "addedCpus \<union> {addedCpu}"
      let ?cur = "current \<union> {addedCpu}"
      let ?free = "free - (current \<union> {addedCpu})"
      show ?thesis
      proof (cases "Size ?added \<ge> delta")
        case True
        with 1(2) Cons y show ?thesis by simp
      next
        case False
        show ?thesis
        proof (cases "nx ?cur ?free 1 (deviceUpdate ta cb ?cur st)")
          case None
          with 1(2) Cons False show ?thesis by simp
        next
          case (Some oc)
          show ?thesis
          proof (cases oc)
            case Panic
            with 1(2) Cons False Some y show ?thesis by simp
          next
            case (Return addFrom' removeFrom' err st1)
            from neverOutOfResizersD [OF nv] Some Return have ne: "err \<noteq> Some ErrNoResizerLeft" by blast
            show ?thesis
            proof (cases "err \<noteq> None \<or> Size addFrom' < 1")
              case True
              with 1(2) Cons False Some Return y ne show ?thesis by simp
            next
              case False2: False
              with 1(2) Cons False Some Return
              have rec: "loop ta cb nx delta addFrom' removeFrom' ?added ?cur ?free st1 = Some y"
                by simp
              note ih = 1(1) [OF rec, rule_format]
              show ?thesis by (rule ih [OF nv y])
            qed
          qed
        qed
      qed
    qed
  qed
qed

lemma never_WithDynamicDeviceHints:
  assumes "neverOutOfResizers next"
  shows "neverOutOfResizers (resizeCpusWithDynamicDeviceHints ta next)"
proof (rule neverOutOfResizersI)
  fix current free delta st a r e st'
  assume "resizeCpusWithDynamicDeviceHints ta next current free delta st = Some (Return a r e st')"
  then show "e \<noteq> Some ErrNoResizerLeft"
  proof (cases rule: WithDynamicDeviceHints_cases)
    case unset
    from neverOutOfResizersD [OF assms unset(2)] show ?thesis .
  next
    case (release cb)
    from neverOutOfResizersD [OF assms release(3)] show ?thesis .
  next
    case (first cb)
    from neverOutOfResizersD [OF assms first(3)] show ?thesis .
  next
    case (loop cb addFrom removeFrom st1)
    from never_dynamicLoop [OF loop(5), rule_format, OF assms refl] show ?thesis .
  qed
qed

lemma never_OnlyIfNecessary:
  assumes "neverOutOfResizers next"
  shows "neverOutOfResizers (resizeCpusOnlyIfNecessary next)"
proof (rule neverOutOfResizersI)
  fix current free delta st a r e st'
  assume "resizeCpusOnlyIfNecessary next current free delta st = Some (Return a r e st')"
  then show "e \<noteq> Some ErrNoResizerLeft"
    using neverOutOfResizersD [OF assms, of current free delta st a r e st']
    by (auto simp: resizeCpusOnlyIfNecessary_def split: if_splits)
qed

text \<open>
  C10. ResizeCpus does not depend on what nextCpuResizer does on the empty list: the
  chain ends with resizeCpusNow, which does not consult its successor, so the chain gives
  the same outcome with any resizer \<open>bottom\<close> in the place of the internal-error
  branch; and no call of ResizeCpus returns the internal error.
\<close>

theorem ResizeCpus_never_out_of_resizers:
  "resizeCpusNow bottom = resizeCpusNow (nextCpuResizer rt ta [])
   \<and> ResizeCpus rt ta current free delta st =
       callResizer rt ta OnlyIfNecessary
         (callResizer rt ta WithDynamicDeviceHints
           (callResizer rt ta WithDevices
             (callResizer rt ta OneAtATime
               (callResizer rt ta MaxLocalSet
                 (callResizer rt ta Now bottom))))) current free delta st
   \<and> returned (ResizeCpus rt ta current free delta st)
       \<noteq> Some (addFrom, removeFrom, Some ErrNoResizerLeft)"
proof -
  have now: "resizeCpusNow bottom = resizeCpusNow (nextCpuResizer rt ta [])"
    by (intro ext) (simp add: resizeCpusNow_def)
  then have last: "callResizer rt ta Now (nextCpuResizer rt ta []) = callResizer rt ta Now bottom"
    by (simp add: callResizer_def)
  have "ResizeCpus rt ta =
       callResizer rt ta OnlyIfNecessary
         (callResizer rt ta WithDynamicDeviceHints
           (callResizer rt ta WithDevices
             (callResizer rt ta OneAtATime
               (callResizer rt ta MaxLocalSet
                 (callResizer rt ta Now (nextCpuResizer rt ta []))))))"
    by (intro ext) (simp only: ResizeCpus_def resizers_def nextCpuResizer.simps(2))
  then have chain: "ResizeCpus rt ta =
       callResizer rt ta OnlyIfNecessary
         (callResizer rt ta WithDynamicDeviceHints
           (callResizer rt ta WithDevices
             (callResizer rt ta OneAtATime
               (callResizer rt ta MaxLocalSet
                 (callResizer rt ta Now bottom)))))"
    by (simp only: last)
  have "neverOutOfResizers (ResizeCpus rt ta)"
    unfolding chain
    by (simp add: callResizer_def never_OnlyIfNecessary never_WithDynamicDeviceHints
        never_WithDevices never_OneAtATime never_MaxLocalSet never_Now)
  then have "returned (ResizeCpus rt ta current free delta st)
       \<noteq> Some (addFrom, removeFrom, Some ErrNoResizerLeft)"
    by (metis neverOutOfResizersD returned_Some)
  with now chain show ?thesis by simp
qed

subsection \<open>Sorting by a key\<close>

lemma sink_total: "(\<And>x y. lt x y \<noteq> None) \<Longrightarrow> sink lt x placed \<noteq> None"
proof (induction placed)
  case Nil
  show ?case by simp
next
  case (Cons y placed)
  from Cons.prems [of x y] obtain b where b: "lt x y = Some b" by auto
  from Cons.IH [OF Cons.prems] obtain q where "sink lt x placed = Some q" by auto
  with b show ?case by (cases b) simp_all
qed

lemma insertionSort_total: "(\<And>x y. lt x y \<noteq> None) \<Longrightarrow> insertionSort lt xs placed \<noteq> None"
proof (induction xs arbitrary: placed)
  case Nil
  show ?case by simp
next
  case (Cons x xs)
  from sink_total [of lt x placed] Cons.prems obtain q where "sink lt x placed = Some q" by auto
  with Cons show ?case by simp
qed

lemma sink_sorted:
  fixes k :: "'a \<Rightarrow> 'b :: linorder"
  shows "sink (\<lambda>i j. Some (k i < k j)) x placed = Some q \<Longrightarrow> sorted (rev (map k placed)) \<Longrightarrow>
     sorted (rev (map k q))"
proof (induction placed arbitrary: q)
  case Nil
  then show ?case by auto
next
  case (Cons y placed)
  show ?case
  proof (cases "k x < k y")
    case False
    then have le: "k y \<le> k x" by simp
    from Cons.prems(2) have "\<forall>z \<in> set placed. k z \<le> k y" by (auto simp: sorted_append)
    with le have "\<forall>z \<in> set placed. k z \<le> k x" by (meson order_trans)
    with False le Cons.prems show ?thesis by (auto simp: sorted_append)
  next
    case True
    with Cons.prems obtain q' where q': "sink (\<lambda>i j. Some (k i < k j)) x placed = Some q'" "q = y # q'"
      by auto
    from Cons.prems(2) have sp: "sorted (rev (map k placed))" by (simp add: sorted_append)
    from Cons.IH [OF q'(1) sp] have s: "sorted (rev (map k q'))" .
    from sink_mset [OF q'(1)] have "set q' = insert x (set placed)"
      by (metis set_mset_mset set_mset_add_mset_insert)
    with Cons.prems(2) True have "\<forall>z \<in> set q'. k z \<le> k y" by (auto simp: sorted_append)
    with s q'(2) show ?thesis by (auto simp: sorted_append)
  qed
qed

lemma insertionSort_sorted:
  fixes k :: "'a \<Rightarrow> 'b :: linorder"
  shows "insertionSort (\<lambda>i j. Some (k i < k j)) xs placed = Some q \<Longrightarrow> sorted (rev (map k placed)) \<Longrightarrow>
     sorted (map k q)"
proof (induction xs arbitrary: placed q)
  case Nil
  then show ?case by (auto simp: rev_map)
next
  case (Cons x xs)
  from Cons.prems(1) obtain p' where p: "sink (\<lambda>i j. Some (k i < k j)) x placed = Some p'"
    "insertionSort (\<lambda>i j. Some (k i < k j)) xs p' = Some q"
    by (auto split: option.splits)
  from Cons.IH [OF p(2) sink_sorted [OF p(1) Cons.prems(2)]] show ?case .
qed

lemma sortSlice_by_key:
  fixes k :: "'a \<Rightarrow> 'b :: linorder"
  obtains ys where "sortSlice (\<lambda>i j. Some (k i < k j)) xs = Some ys" "sorted (map k ys)"
    "mset ys = mset xs" "map k ys = sort (map k xs)"
proof -
  from insertionSort_total [of "\<lambda>i j. Some (k i < k j)" xs "[]"]
  obtain ys where ys: "sortSlice (\<lambda>i j. Some (k i < k j)) xs = Some ys"
    by (auto simp: sortSlice_def)
  then have s: "sorted (map k ys)" using insertionSort_sorted [of k xs "[]" ys]
    by (simp add: sortSlice_def)
  from sortSlice_mset [OF ys] have m: "mset ys = mset xs" .
  then have "mset (map k ys) = mset (map k xs)" by simp
  from properties_for_sort [OF this s] have "map k ys = sort (map k xs)" by simp
  with ys s m that show ?thesis by blast
qed

subsection \<open>The hint values do not depend on the order of UnsortedList\<close>

lemma addHint_distinct:
  "distinct xs \<Longrightarrow> addHint w hints xs = (\<lambda>cpu. if cpu \<in> set xs then hints cpu + w else hints cpu)"
proof (induction xs arbitrary: hints)
  case Nil
  show ?case by (simp add: addHint_def)
next
  case (Cons x xs)
  from Cons.prems have d: "distinct xs" and nx: "x \<notin> set xs" by simp_all
  have "addHint w hints (x # xs) = addHint w (hints(x := hints x + w)) xs"
    by (simp add: addHint_def)
  also have "\<dots> = (\<lambda>cpu. if cpu \<in> set xs then (hints(x := hints x + w)) cpu + w
                         else (hints(x := hints x + w)) cpu)"
    by (rule Cons.IH [OF d])
  also have "\<dots> = (\<lambda>cpu. if cpu \<in> set (x # xs) then hints cpu + w else hints cpu)"
    using nx by (auto simp: fun_eq_iff)
  finally show ?case .
qed

lemma addHint_UnsortedList:
  assumes "goodRuntime rt" and "finite s"
  shows "addHint w hints (UnsortedList rt s) = (\<lambda>cpu. if cpu \<in> s then hints cpu + w else hints cpu)"
  using assms addHint_distinct [of "UnsortedList rt s" w hints]
  by (simp add: goodRuntime_def)

lemma currentCpuHints_independent:
  assumes "goodRuntime rt" and "goodRuntime rt'" and "finite current"
  shows "currentCpuHints rt hs current = currentCpuHints rt' hs current"
proof -
  have inner: "foldl (\<lambda>h hinted. addHint w h (UnsortedList rt (hinted \<inter> current))) hints cs
      = foldl (\<lambda>h hinted. addHint w h (UnsortedList rt' (hinted \<inter> current))) hints cs"
    for w hints cs
  proof (induction cs arbitrary: hints)
    case Nil
    show ?case by simp
  next
    case (Cons c cs)
    from assms(3) have "finite (c \<inter> current)" by simp
    from addHint_UnsortedList [OF assms(1) this] addHint_UnsortedList [OF assms(2) this]
    have "addHint w hints (UnsortedList rt (c \<inter> current)) = addHint w hints (UnsortedList rt' (c \<inter> current))"
      by simp
    with Cons.IH show ?case by simp
  qed
  have outer: "foldl (\<lambda>hints (hintPriority, closeCpuSets).
              foldl (\<lambda>h hinted.
                       addHint (push_bit (n - 1 - hintPriority) 1) h
                         (UnsortedList rt (hinted \<inter> current)))
                hints closeCpuSets) h0 ps
     = foldl (\<lambda>hints (hintPriority, closeCpuSets).
              foldl (\<lambda>h hinted.
                       addHint (push_bit (n - 1 - hintPriority) 1) h
                         (UnsortedList rt' (hinted \<inter> current)))
                hints closeCpuSets) h0 ps" for n h0 and ps :: "(nat \<times> cpuset list) list"
  proof (induction ps arbitrary: h0)
    case Nil
    show ?case by simp
  next
    case (Cons p ps)
    obtain i cs where p: "p = (i, cs)" by (cases p)
    show ?case using Cons.IH inner by (simp add: p)
  qed
  show ?thesis unfolding currentCpuHints_def by (rule outer)
qed


subsection \<open>The two sets of the shrinking device stage\<close>

lemma splitHinted_sorted:
  "sorted (map hints xs) \<Longrightarrow>
   splitHinted hints maxHints xs forSure maybe =
     (forSure \<union> {x \<in> set xs. hints x < maxHints}, maybe \<union> {x \<in> set xs. hints x = maxHints})"
proof (induction xs arbitrary: forSure maybe)
  case Nil
  show ?case by simp
next
  case (Cons x xs)
  from Cons.prems have s: "sorted (map hints xs)" and le: "\<forall>y \<in> set xs. hints x \<le> hints y"
    by simp_all
  show ?case
  proof (cases "hints x \<le> maxHints")
    case False
    with le have "\<forall>y \<in> set xs. \<not> hints y \<le> maxHints" by (meson order_trans)
    then have "{y \<in> set xs. hints y < maxHints} = {}" "{y \<in> set xs. hints y = maxHints} = {}"
      by auto
    with False show ?thesis by auto
  next
    case True
    show ?thesis
    proof (cases "hints x < maxHints")
      case True
      with \<open>hints x \<le> maxHints\<close> Cons.IH [OF s, of "forSure \<union> {x}" maybe] show ?thesis by auto
    next
      case False
      with \<open>hints x \<le> maxHints\<close> have "hints x = maxHints" by simp
      with Cons.IH [OF s, of forSure "maybe \<union> {x}"] show ?thesis by auto
    qed
  qed
qed

lemma hintedToFree_sorted:
  assumes "goodRuntime rt" and "finite current"
    and "delta < 0" and "- (2 ^ 63) < delta" and "- delta < Size current"
  obtains leastHintedCpus where
    "sortSlice (\<lambda>i j. Some (currentCpuHints rt hs current i < currentCpuHints rt hs current j))
       (UnsortedList rt current) = Some leastHintedCpus"
    "set leastHintedCpus = current"
    "sorted (map (currentCpuHints rt hs current) leastHintedCpus)"
    "map (currentCpuHints rt hs current) leastHintedCpus =
       sort (map (currentCpuHints rt hs current) (UnsortedList rt current))"
    "hintedToFree rt hs current delta =
       Some ({cpu \<in> current. currentCpuHints rt hs current cpu
                < currentCpuHints rt hs current (leastHintedCpus ! nat (- delta))},
             {cpu \<in> current. currentCpuHints rt hs current cpu
                = currentCpuHints rt hs current (leastHintedCpus ! nat (- delta))})"
proof -
  let ?h = "currentCpuHints rt hs current"
  from assms(1,2) have u: "set (UnsortedList rt current) = current" "distinct (UnsortedList rt current)"
    by (simp_all add: goodRuntime_def)
  obtain ys where ys: "sortSlice (\<lambda>i j. Some (?h i < ?h j)) (UnsortedList rt current) = Some ys"
    and srt: "sorted (map ?h ys)" and ms: "mset ys = mset (UnsortedList rt current)"
    and vals: "map ?h ys = sort (map ?h (UnsortedList rt current))"
    by (rule sortSlice_by_key)
  from ms have sy: "set ys = current" using u(1) by (metis set_mset_mset)
  from ms have "length ys = length (UnsortedList rt current)" by (metis size_mset)
  also from u have "\<dots> = card current" by (metis distinct_card)
  finally have len: "int (length ys) = Size current" by (simp add: Size_def)
  from assms(3,4) have ng: "neg delta = - delta" by (simp add: neg_def)
  from assms(3,5) len have inr: "\<not> (neg delta < 0 \<or> nat (neg delta) \<ge> length ys)"
    by (simp add: ng)
  have "hintedToFree rt hs current delta =
      Some (splitHinted ?h (?h (ys ! nat (- delta))) ys {} {})"
    unfolding hintedToFree_def Let_def using ys inr by (simp add: ng)
  also have "splitHinted ?h (?h (ys ! nat (- delta))) ys {} {} =
      ({} \<union> {x \<in> set ys. ?h x < ?h (ys ! nat (- delta))},
       {} \<union> {x \<in> set ys. ?h x = ?h (ys ! nat (- delta))})"
    by (rule splitHinted_sorted [OF srt])
  finally have "hintedToFree rt hs current delta =
      Some ({cpu \<in> current. ?h cpu < ?h (ys ! nat (- delta))},
            {cpu \<in> current. ?h cpu = ?h (ys ! nat (- delta))})"
    by (simp add: sy)
  with ys sy srt vals that show ?thesis by blast
qed

text \<open>
  A shrinking call of ResizeCpus reaches the device stage only with fewer cpus to release
  than there are current cpus: the first stage answers the other calls itself, and the
  stage of the dynamic hints forwards a shrinking call as it is.
\<close>

lemma shrinking_call_of_the_device_stage:
  assumes "delta < 0" and "- (2 ^ 63) < delta"
  shows "ResizeCpus rt ta current free delta st =
     (if Size current < - delta then Some (Return {} current (Some ErrNotEnoughCurrentCpus) st)
      else if Size current = - delta then Some (Return {} current None st)
      else resizeCpusWithDevices rt ta (nextCpuResizer rt ta [OneAtATime, MaxLocalSet, Now])
             current free delta
             (case deviceUpdateOnEveryCpu (options ta) of
                None \<Rightarrow> st
              | Some callback \<Rightarrow> deviceUpdate ta callback current st))"
  using assms
  by (simp add: ResizeCpus_def resizers_def callResizer_def resizeCpusOnlyIfNecessary_def
      resizeCpusWithDynamicDeviceHints_def neg_def split: option.split)

subsection \<open>The hint value as a bit mask\<close>

lemma hintBits_fold:
  assumes "goodRuntime rt" and "finite current"
  shows "n = i + length hintSets \<Longrightarrow>
     foldl (\<lambda>hints (hintPriority, closeCpuSets).
              foldl (\<lambda>h hinted.
                       addHint (push_bit (n - 1 - hintPriority) 1) h
                         (UnsortedList rt (hinted \<inter> current)))
                hints closeCpuSets)
       h0 (zip [i..<i + length hintSets] (map (\<lambda>s. [s]) hintSets)) cpu
     = h0 cpu + horner_sum of_bool 2 (rev (map (\<lambda>s. cpu \<in> s \<inter> current) hintSets))"
proof (induction hintSets arbitrary: i h0)
  case Nil
  show ?case by simp
next
  case (Cons s hintSets)
  let ?F = "\<lambda>hints (hintPriority, closeCpuSets).
              foldl (\<lambda>h hinted.
                       addHint (push_bit (n - 1 - hintPriority) 1) h
                         (UnsortedList rt (hinted \<inter> current)))
                hints closeCpuSets"
  let ?h1 = "addHint (push_bit (n - 1 - i) 1) h0 (UnsortedList rt (s \<inter> current))"
  from assms(2) have fin: "finite (s \<inter> current)" by simp
  from Cons.prems have n: "n = Suc i + length hintSets" and e: "n - 1 - i = length hintSets"
    and e': "n - Suc i = length hintSets"
    by simp_all
  have u: "[i..<i + length (s # hintSets)] = i # [Suc i..<Suc i + length hintSets]"
    by (simp add: upt_conv_Cons del: upt_Suc)
  have z: "zip [i..<i + length (s # hintSets)] (map (\<lambda>s. [s]) (s # hintSets))
      = (i, [s]) # zip [Suc i..<Suc i + length hintSets] (map (\<lambda>s. [s]) hintSets)"
    by (simp only: u list.map zip_Cons_Cons)
  have "foldl ?F h0 (zip [i..<i + length (s # hintSets)] (map (\<lambda>s. [s]) (s # hintSets))) cpu
      = foldl ?F ?h1 (zip [Suc i..<Suc i + length hintSets] (map (\<lambda>s. [s]) hintSets)) cpu"
    by (simp only: z foldl.simps prod.case)
  also have "\<dots> = ?h1 cpu + horner_sum of_bool 2 (rev (map (\<lambda>s. cpu \<in> s \<inter> current) hintSets))"
    by (rule Cons.IH [OF n])
  also have "?h1 cpu = (if cpu \<in> s \<inter> current then h0 cpu + 2 ^ length hintSets else h0 cpu)"
    by (simp add: addHint_UnsortedList [OF assms(1) fin] e e' push_bit_of_1)
  finally show ?case by (simp add: horner_sum_append)
qed

lemma currentCpuHints_bits:
  assumes "goodRuntime rt" and "finite current"
    and "length hintSets \<le> 64" and "k < length hintSets"
  shows "bit (currentCpuHints rt (map (\<lambda>s. [s]) hintSets) current cpu) (length hintSets - 1 - k)
     = (cpu \<in> hintSets ! k \<inter> current)"
proof -
  have "currentCpuHints rt (map (\<lambda>s. [s]) hintSets) current cpu
      = horner_sum of_bool 2 (rev (map (\<lambda>s. cpu \<in> s \<inter> current) hintSets))"
    unfolding currentCpuHints_def
    using hintBits_fold [OF assms(1,2), of "length hintSets" 0 hintSets "\<lambda>cpu. 0" cpu]
    by simp
  moreover from assms(4) have "length hintSets - 1 - k < length hintSets"
    "length hintSets - Suc (length hintSets - 1 - k) = k" by simp_all
  ultimately show ?thesis using assms(3,4)
    by (simp add: bit_horner_sum_bit_word_iff rev_nth)
qed



text \<open>
  Outside these bounds the hint value is no bit mask. Two hint sets of one group add the
  same power of two twice, which carries into the bit of the group before; and with more
  than 64 groups the shift of the first ones leaves the 64 bits, so they add 0.
\<close>

lemma currentCpuHints_two_sets_of_a_group:
  "currentCpuHints goRuntime [[{0}], [{0}, {0}]] {0} 0 = 4"
  by code_simp

lemma currentCpuHints_shifted_out:
  "currentCpuHints goRuntime ([{0}] # replicate 64 [{}]) {0} 0 = 0"
  by code_simp

text \<open>
  C3. A shrinking call of the device stage that the first stage lets through (delta < 0,
  -delta below the number of current cpus): leastHintedCpus holds the current cpus, their
  hint values in ascending order, maxHints is the value of the cpu at position -delta of
  it, the cpus whose value is below maxHints are currentToFreeForSure and the cpus whose
  value equals it are currentToFreeMaybe. When every priority group holds one hint set
  and there are at most 64 groups, the hint value of a cpu is a bit mask: the bit at
  position (number of groups - 1 - k) is set exactly when the cpu is in the k-th hint set
  and in the current cpus, so the first group has the highest bit.
\<close>

theorem hintedToFree_threshold:
  fixes allCloseCpuSets :: "cpuset list list" and hints :: "int \<Rightarrow> 64 word"
  assumes "goodRuntime rt" and "finite current"
    and "delta < 0" and "- (2 ^ 63) < delta" and "- delta < Size current"
  defines "hints \<equiv> currentCpuHints rt allCloseCpuSets current"
  shows "\<exists>leastHintedCpus.
      sortSlice (\<lambda>i j. Some (hints i < hints j)) (UnsortedList rt current) = Some leastHintedCpus
      \<and> set leastHintedCpus = current
      \<and> sorted (map hints leastHintedCpus)
      \<and> map hints leastHintedCpus = sort (map hints (UnsortedList rt current))
      \<and> hintedToFree rt allCloseCpuSets current delta =
          Some ({cpu \<in> current. hints cpu < hints (leastHintedCpus ! nat (- delta))},
                {cpu \<in> current. hints cpu = hints (leastHintedCpus ! nat (- delta))})
      \<and> (\<forall>hintSets k cpu.
            allCloseCpuSets = map (\<lambda>s. [s]) hintSets \<and> length hintSets \<le> 64 \<and> k < length hintSets
            \<longrightarrow> bit (hints cpu) (length hintSets - 1 - k) = (cpu \<in> hintSets ! k \<and> cpu \<in> current))"
proof -
  obtain ys where
    "sortSlice (\<lambda>i j. Some (hints i < hints j)) (UnsortedList rt current) = Some ys"
    "set ys = current" "sorted (map hints ys)"
    "map hints ys = sort (map hints (UnsortedList rt current))"
    "hintedToFree rt allCloseCpuSets current delta =
       Some ({cpu \<in> current. hints cpu < hints (ys ! nat (- delta))},
             {cpu \<in> current. hints cpu = hints (ys ! nat (- delta))})"
    unfolding hints_def by (rule hintedToFree_sorted [OF assms(1-5)])
  moreover have "\<forall>hintSets k cpu.
      allCloseCpuSets = map (\<lambda>s. [s]) hintSets \<and> length hintSets \<le> 64 \<and> k < length hintSets
      \<longrightarrow> bit (hints cpu) (length hintSets - 1 - k) = (cpu \<in> hintSets ! k \<and> cpu \<in> current)"
    unfolding hints_def using currentCpuHints_bits [OF assms(1,2)] by simp
  ultimately show ?thesis by blast
qed

theorem hintedToFree_threshold_witness:
  "goodRuntime goRuntime \<and> finite {0, 1, 2, 3 :: int}
   \<and> (- 2 :: int) < 0 \<and> - (2 ^ 63) < (- 2 :: int) \<and> - (- 2) < Size {0, 1, 2, 3}
   \<and> sortSlice (\<lambda>i j. Some (currentCpuHints goRuntime [[{1, 2}], [{2, 3}]] {0, 1, 2, 3} i
                              < currentCpuHints goRuntime [[{1, 2}], [{2, 3}]] {0, 1, 2, 3} j))
        (UnsortedList goRuntime {0, 1, 2, 3}) = Some [0, 3, 1, 2]
   \<and> hintedToFree goRuntime [[{1, 2}], [{2, 3}]] {0, 1, 2, 3} (- 2) = Some ({0, 3}, {1})
   \<and> [[{1, 2}], [{2, 3 :: int}]] = map (\<lambda>s. [s]) [{1, 2}, {2, 3}]
   \<and> length [{1, 2}, {2, 3 :: int}] \<le> 64 \<and> (0 :: nat) < length [{1, 2}, {2, 3 :: int}]
   \<and> bit (currentCpuHints goRuntime [[{1, 2}], [{2, 3}]] {0, 1, 2, 3} 1) 1
   \<and> \<not> bit (currentCpuHints goRuntime [[{1, 2}], [{2, 3}]] {0, 1, 2, 3} 3) 1"
proof -
  let ?h = "currentCpuHints goRuntime [[{1, 2}], [{2, 3}]] {0, 1, 2, 3}"
  have f: "finite {0, 1, 2, 3 :: int}" by simp
  have d: "(- 2 :: int) < 0" "- (2 ^ 63) < (- 2 :: int)" "- (- 2) < Size {0, 1, 2, 3}"
    by (simp_all add: Size_def)
  have hv: "?h 0 = 0" "?h 1 = 2" "?h 2 = 3" "?h 3 = 1" by code_simp+
  have srt: "sortSlice (\<lambda>i j. Some (?h i < ?h j)) (UnsortedList goRuntime {0, 1, 2, 3}) = Some [0, 3, 1, 2]"
    by code_simp
  from hintedToFree_threshold [where rt = goRuntime and current = "{0, 1, 2, 3}" and delta = "- 2"
      and allCloseCpuSets = "[[{1, 2}], [{2, 3}]]", OF goodRuntime_goRuntime f d]
  obtain ys where ys: "sortSlice (\<lambda>i j. Some (?h i < ?h j)) (UnsortedList goRuntime {0, 1, 2, 3}) = Some ys"
    and sets: "hintedToFree goRuntime [[{1, 2}], [{2, 3}]] {0, 1, 2, 3} (- 2) =
          Some ({cpu \<in> {0, 1, 2, 3}. ?h cpu < ?h (ys ! nat (- (- 2)))},
                {cpu \<in> {0, 1, 2, 3}. ?h cpu = ?h (ys ! nat (- (- 2)))})"
    and bits: "\<forall>hintSets k cpu.
            [[{1, 2}], [{2, 3}]] = map (\<lambda>s. [s]) hintSets \<and> length hintSets \<le> 64 \<and> k < length hintSets
            \<longrightarrow> bit (?h cpu) (length hintSets - 1 - k) = (cpu \<in> hintSets ! k \<and> cpu \<in> {0, 1, 2, 3})"
    by blast
  from ys srt have ys': "ys = [0, 3, 1, 2]" by simp
  have "{cpu \<in> {0, 1, 2, 3}. ?h cpu < ?h (ys ! nat (- (- 2)))} = {0, 3}"
    "{cpu \<in> {0, 1, 2, 3}. ?h cpu = ?h (ys ! nat (- (- 2)))} = {1}"
    by (auto simp: ys' hv)
  with sets have r: "hintedToFree goRuntime [[{1, 2}], [{2, 3}]] {0, 1, 2, 3} (- 2) = Some ({0, 3}, {1})"
    by simp
  from bits [rule_format, of "[{1, 2}, {2, 3}]" 0 1] have b1: "bit (?h 1) 1" by simp
  from bits [rule_format, of "[{1, 2}, {2, 3}]" 0 3] have b3: "\<not> bit (?h 3) 1" by simp
  from goodRuntime_goRuntime f d srt r b1 b3 show ?thesis by simp
qed

theorem devices_threshold_counterexample:
  "sortSlice (\<lambda>i j. Some (currentCpuHints goRuntime [[{1, 2}], [{2, 3}]] {0, 1, 2, 3} i
                            < currentCpuHints goRuntime [[{1, 2}], [{2, 3}]] {0, 1, 2, 3} j))
        (UnsortedList goRuntime {0, 1, 2, 3}) = Some [0, 3, 1, 2]
   \<and> currentCpuHints goRuntime [[{1, 2}], [{2, 3}]] {0, 1, 2, 3} ([0, 3, 1, 2] ! nat (- (- 2) - 1)) = 1
   \<and> {cpu \<in> {0, 1, 2, 3}. currentCpuHints goRuntime [[{1, 2}], [{2, 3}]] {0, 1, 2, 3} cpu < 1} = {0}
   \<and> hintedToFree goRuntime [[{1, 2}], [{2, 3}]] {0, 1, 2, 3} (- 2) = Some ({0, 3}, {1})"
  by code_simp




subsection \<open>ResizeCpus at concrete inputs\<close>

text \<open>
  C2. NewAllocator with preferSpreadOnPhysicalCores on a NUMA node of two caches, each with
  two cores of two threads, and ResizeCpus of no current cpus and the free cpus 0..7 by
  delta = 2. SplitLevel puts the classes of first and second threads under the NUMA node in
  the order in which Go ranges over its map of classes. The copies of one cache under the
  two classes have the same name, depth and counts of cpus, so neither is less than the
  other for sorterAllocate, and the sort of resizeCpusMaxLocalSet (of 7 records, an
  insertion sort in Go) keeps them in the order of the classes. With class 0 first the
  call returns the cpus {0, 2} to add from, with class 1 first the cpus {1, 3}.
\<close>

theorem ResizeCpus_follows_class_order:
  "resizeOnNew goRuntime twoCaches spreadOptions {} {0, 1, 2, 3, 4, 5, 6, 7} 2 = Some ({0, 2}, {}, None)
   \<and> resizeOnNew reversedRange twoCaches spreadOptions {} {0, 1, 2, 3, 4, 5, 6, 7} 2 = Some ({1, 3}, {}, None)
   \<and> UnsortedList reversedRange {0, 1, 2, 3, 4, 5, 6, 7} = UnsortedList goRuntime {0, 1, 2, 3, 4, 5, 6, 7}
   \<and> mapRange reversedRange [] [(0, [0, 2, 4, 6]), (1, [1, 3, 5, 7])] = [(1, [1, 3, 5, 7]), (0, [0, 2, 4, 6])]
   \<and> classCpus (\<lambda>cpu. leafSiblingIndex cpu (- 1) twoCaches) (List (cpus twoCaches)) []
        = Some [(0, [0, 2, 4, 6]), (1, [1, 3, 5, 7])]
   \<and> sortedByMaxLocalSet goRuntime twoCaches spreadOptions {} {0, 1, 2, 3, 4, 5, 6, 7} 2 = Some 7
   \<and> sortedByMaxLocalSet reversedRange twoCaches spreadOptions {} {0, 1, 2, 3, 4, 5, 6, 7} 2 = Some 7"
  by code_simp


text \<open>
  C5. At the least int, delta = -2^63, the negation -delta of Go is delta again. The test
  of resizeCpusOnlyIfNecessary for too few current cpus, Size() < -delta, is false, and
  ResizeCpus of the current cpus {0, 1, 4} returns without error no cpus to remove from,
  fewer than the 2^63 asked for. With a device hint the same call panics in
  resizeCpusWithDevices, which reads leastHintedCpus at the index -delta.
\<close>

theorem ResizeCpus_least_int_delta:
  "returned (ResizeCpus goRuntime \<lparr>options = plainOptions, root = twoCaches\<rparr>
        {0, 1, 4} {2, 3, 5, 6, 7} (- 9223372036854775808) noState) = Some ({}, {}, None)
   \<and> neg (- 9223372036854775808) = - 9223372036854775808
   \<and> Size {} < 9223372036854775808
   \<and> panicked (ResizeCpus goRuntime
        \<lparr>options = plainOptions\<lparr>preferCloseToDevices := [''/devA'']\<rparr>, root = twoCaches\<rparr>
        {0, 1, 4} {2, 3, 5, 6, 7} (- 9223372036854775808)
        \<lparr>cacheCloseCpuSets = [''/devA'' \<mapsto> [{1}]], deviceUpdates = []\<rparr>)"
  by code_simp

end
